theory Spec2Isabelle
  imports Main
begin

section \<open>Python values and type descriptors\<close>

text \<open>
  The module \<^verbatim>\<open>numba/abstracttypes.py\<close> defines the base class \<^verbatim>\<open>Type\<close>, the
  metaclass that interns its instances in the global registry \<^verbatim>\<open>_typecache\<close>, and
  the abstract categories built on it. Instances are heap objects: an instance is
  identified by its address, and \<^verbatim>\<open>is\<close> is equality of addresses.
\<close>

type_synonym addr = nat

text \<open>
  The Python values that reach \<^verbatim>\<open>__getitem__\<close> and \<^verbatim>\<open>__call__\<close>: \<^verbatim>\<open>None\<close>, integers,
  strings, slices (start, stop, step), tuples, lists and type descriptors.
\<close>

datatype pyobj =
    PyNone
  | PyInt int
  | PyStr string
  | PySlice pyobj pyobj pyobj
  | PyTuple "pyobj list"
  | PyList "pyobj list"
  | PyType addr

datatype error = AssertionError | AttributeError | IndexError | NotImplementedError

text \<open>
  A class object. Two classes are the same object (\<^verbatim>\<open>is\<close>) when the records are equal.
  \<open>iterator_cls\<close> says whether \<^verbatim>\<open>IteratorType\<close> is among the bases of the class.
  \<open>iterator_init\<close> says whether the \<^verbatim>\<open>__init__\<close> of the class runs
  \<^verbatim>\<open>IteratorType.__init__\<close>: the inherited \<^verbatim>\<open>__init__\<close> does, while a subclass may
  define an \<^verbatim>\<open>__init__\<close> that calls \<^verbatim>\<open>Type.__init__\<close> directly and never sets
  \<^verbatim>\<open>_iterator_type\<close>.
\<close>

record pyclass =
  cname :: string
  iterator_cls :: bool
  iterator_init :: bool

text \<open>
  An instance of \<^verbatim>\<open>Type\<close>. \<open>key\<close> is the value of the \<^verbatim>\<open>key\<close> property, which a
  subclass may override; \<open>code\<close> is the attribute \<^verbatim>\<open>_code\<close>, absent until the
  metaclass sets it; \<open>iterator_type_field\<close> is the attribute \<^verbatim>\<open>_iterator_type\<close>,
  which only \<^verbatim>\<open>IteratorType.__init__\<close> sets.
\<close>

record 'k pytype =
  cls :: pyclass
  name :: string
  is_parametric :: bool
  key :: 'k
  code :: "nat option"
  iterator_type_field :: "addr option"

subsection \<open>Equality and hashing\<close>

text \<open>
  \<^verbatim>\<open>__eq__\<close>: \<^verbatim>\<open>self.__class__ is other.__class__ and self.key == other.key\<close>;
  \<^verbatim>\<open>__ne__\<close>: \<^verbatim>\<open>not (self == other)\<close>; \<^verbatim>\<open>__hash__\<close>: \<^verbatim>\<open>hash(self.key)\<close>, where the hash
  of key values is a parameter.
\<close>

definition Type_eq :: "'k pytype \<Rightarrow> 'k pytype \<Rightarrow> bool" where
  "Type_eq self other = (cls self = cls other \<and> key self = key other)"

definition Type_ne :: "'k pytype \<Rightarrow> 'k pytype \<Rightarrow> bool" where
  "Type_ne self other = (\<not> Type_eq self other)"

definition Type_hash :: "('k \<Rightarrow> int) \<Rightarrow> 'k pytype \<Rightarrow> int" where
  "Type_hash hash_of self = hash_of (key self)"

subsection \<open>Array specifications from an index\<close>

text \<open>
  \<^verbatim>\<open>x.step\<close>: only a slice has the attribute. \<^verbatim>\<open>x == 1\<close>: among the values modelled,
  only the integer 1.
\<close>

fun getattr_step :: "pyobj \<Rightarrow> error + pyobj" where
  "getattr_step (PySlice start stop step) = Inr step"
| "getattr_step PyNone = Inl AttributeError"
| "getattr_step (PyInt n) = Inl AttributeError"
| "getattr_step (PyStr s) = Inl AttributeError"
| "getattr_step (PyTuple xs) = Inl AttributeError"
| "getattr_step (PyList xs) = Inl AttributeError"
| "getattr_step (PyType a) = Inl AttributeError"

fun py_eq_one :: "pyobj \<Rightarrow> bool" where
  "py_eq_one (PyInt n) = (n = 1)"
| "py_eq_one PyNone = False"
| "py_eq_one (PyStr s) = False"
| "py_eq_one (PySlice a b c) = False"
| "py_eq_one (PyTuple xs) = False"
| "py_eq_one (PyList xs) = False"
| "py_eq_one (PyType a) = False"

text \<open>
  The branch of \<^verbatim>\<open>_determine_array_spec\<close> for a tuple or a list: \<^verbatim>\<open>args[0]\<close> raises
  \<^verbatim>\<open>IndexError\<close> on an empty sequence, \<^verbatim>\<open>.step\<close> raises \<^verbatim>\<open>AttributeError\<close> on an
  element that is not a slice, and the last element is inspected only when the step
  of the first is not 1.
\<close>

definition sequence_spec :: "pyobj list \<Rightarrow> error + (nat \<times> string)" where
  "sequence_spec xs =
     (if xs = [] then Inl IndexError
      else case getattr_step (hd xs) of
        Inl e \<Rightarrow> Inl e
      | Inr st0 \<Rightarrow>
          if py_eq_one st0 then Inr (length xs, ''F'')
          else (case getattr_step (last xs) of
            Inl e \<Rightarrow> Inl e
          | Inr st1 \<Rightarrow>
              if py_eq_one st1 then Inr (length xs, ''C'')
              else Inr (length xs, ''A'')))"

fun determine_array_spec :: "pyobj \<Rightarrow> error + (nat \<times> string)" where
  "determine_array_spec (PyTuple xs) = sequence_spec xs"
| "determine_array_spec (PyList xs) = sequence_spec xs"
| "determine_array_spec (PySlice start stop step) =
     Inr (1, if py_eq_one step then ''C'' else ''A'')"
| "determine_array_spec PyNone = Inr (1, ''A'')"
| "determine_array_spec (PyInt n) = Inr (1, ''A'')"
| "determine_array_spec (PyStr s) = Inr (1, ''A'')"
| "determine_array_spec (PyType a) = Inr (1, ''A'')"

text \<open>
  \<^verbatim>\<open>__getitem__\<close>: \<^verbatim>\<open>Array(dtype=self, ndim=ndim, layout=layout)\<close>. The class
  \<^verbatim>\<open>Array\<close> lives in \<^verbatim>\<open>numba/types.py\<close>; its constructor is the parameter \<open>Array\<close>.
\<close>

definition Type_getitem :: "(addr \<Rightarrow> nat \<Rightarrow> string \<Rightarrow> 'r) \<Rightarrow> addr \<Rightarrow> pyobj \<Rightarrow> error + 'r" where
  "Type_getitem Array self args =
     (case determine_array_spec args of
        Inl e \<Rightarrow> Inl e
      | Inr (ndim, layout) \<Rightarrow> Inr (Array self ndim layout))"

text \<open>
  The rule for rank and layout as the specification words it, for comparison with
  \<open>determine_array_spec\<close>: a single slice has rank 1 and layout C when its step is 1,
  A otherwise; a tuple of slices has as rank the number of slices, layout F when the
  first slice has step 1, C when the last has, A otherwise; any other index has rank 1
  and layout A.
\<close>

fun is_slice :: "pyobj \<Rightarrow> bool" where
  "is_slice (PySlice a b c) = True"
| "is_slice PyNone = False"
| "is_slice (PyInt n) = False"
| "is_slice (PyStr s) = False"
| "is_slice (PyTuple xs) = False"
| "is_slice (PyList xs) = False"
| "is_slice (PyType a) = False"

fun step_is_one :: "pyobj \<Rightarrow> bool" where
  "step_is_one (PySlice a b c) = (c = PyInt 1)"
| "step_is_one PyNone = False"
| "step_is_one (PyInt n) = False"
| "step_is_one (PyStr s) = False"
| "step_is_one (PyTuple xs) = False"
| "step_is_one (PyList xs) = False"
| "step_is_one (PyType a) = False"

definition spec_array_spec :: "pyobj \<Rightarrow> nat \<times> string" where
  "spec_array_spec args =
     (case args of
        PySlice a b c \<Rightarrow> (1, if c = PyInt 1 then ''C'' else ''A'')
      | PyTuple xs \<Rightarrow>
          if list_all is_slice xs then
            (length xs,
             if xs \<noteq> [] \<and> step_is_one (hd xs) then ''F''
             else if xs \<noteq> [] \<and> step_is_one (last xs) then ''C''
             else ''A'')
          else (1, ''A'')
      | PyNone \<Rightarrow> (1, ''A'')
      | PyInt n \<Rightarrow> (1, ''A'')
      | PyStr s \<Rightarrow> (1, ''A'')
      | PyList xs \<Rightarrow> (1, ''A'')
      | PyType a \<Rightarrow> (1, ''A''))"

subsection \<open>Calling a type descriptor\<close>

fun isinstance_Type :: "pyobj \<Rightarrow> bool" where
  "isinstance_Type (PyType a) = True"
| "isinstance_Type PyNone = False"
| "isinstance_Type (PyInt n) = False"
| "isinstance_Type (PyStr s) = False"
| "isinstance_Type (PySlice a b c) = False"
| "isinstance_Type (PyTuple xs) = False"
| "isinstance_Type (PyList xs) = False"

text \<open>
  \<^verbatim>\<open>__call__\<close>. \<^verbatim>\<open>cast_python_value\<close> of the base class raises
  \<^verbatim>\<open>NotImplementedError\<close> and a variant overrides it, so the method of the receiver's
  class is the parameter \<open>cast_python_value\<close>. The function \<^verbatim>\<open>signature\<close> is imported
  from \<^verbatim>\<open>numba/typing\<close>; it is the parameter \<open>signature\<close>, called with the return type
  first and then the positional arguments.
\<close>

definition Type_cast_python_value :: "pyobj \<Rightarrow> error + 'v" where
  "Type_cast_python_value args = Inl NotImplementedError"

datatype ('v, 'g) call_result = Cast 'v | Sig 'g

definition Type_call ::
  "(pyobj \<Rightarrow> error + 'v) \<Rightarrow> (addr \<Rightarrow> pyobj list \<Rightarrow> 'g) \<Rightarrow> addr \<Rightarrow> pyobj list
   \<Rightarrow> error + ('v, 'g) call_result" where
  "Type_call cast_python_value signature self args =
     (if length args = 1 \<and> \<not> isinstance_Type (args ! 0) then
        (case cast_python_value (args ! 0) of
           Inl e \<Rightarrow> Inl e
         | Inr v \<Rightarrow> Inr (Cast v))
      else Inr (Sig (signature self args)))"

section \<open>The interning registry\<close>

text \<open>
  A concrete class together with what its \<^verbatim>\<open>__init__\<close> and \<^verbatim>\<open>key\<close> compute from the
  constructor arguments: the name and the parametric flag handed to
  \<^verbatim>\<open>Type.__init__\<close>, and the value of the \<^verbatim>\<open>key\<close> property. For \<^verbatim>\<open>Type\<close> itself the
  arguments are the name and the flag, and the key is the name.
\<close>

record ('a, 'k) variant =
  v_cls :: pyclass
  v_name :: "'a \<Rightarrow> string"
  v_param :: "'a \<Rightarrow> bool"
  v_key :: "'a \<Rightarrow> 'k"

definition Type_variant :: "pyclass \<Rightarrow> (string \<times> bool, string) variant" where
  "Type_variant c = \<lparr>v_cls = c, v_name = fst, v_param = snd, v_key = fst\<rparr>"

text \<open>
  \<^verbatim>\<open>Type.__init__\<close> sets \<^verbatim>\<open>name\<close> and \<^verbatim>\<open>is_parametric\<close>; \<^verbatim>\<open>IteratorType.__init__\<close> first
  sets \<^verbatim>\<open>_iterator_type\<close> to the instance itself. \<open>new_instance\<close> is
  \<^verbatim>\<open>type.__call__(cls, *args, **kwargs)\<close> for an instance allocated at \<open>self\<close>:
  \<^verbatim>\<open>IteratorType.__init__\<close> runs only for a class that derives from \<^verbatim>\<open>IteratorType\<close>
  and whose \<^verbatim>\<open>__init__\<close> calls it; for every other class only \<^verbatim>\<open>Type.__init__\<close> runs.
\<close>

definition Type_init :: "pyclass \<Rightarrow> string \<Rightarrow> bool \<Rightarrow> 'k \<Rightarrow> 'k pytype" where
  "Type_init c nm param k =
     \<lparr>cls = c, name = nm, is_parametric = param, key = k, code = None,
      iterator_type_field = None\<rparr>"

definition IteratorType_init :: "addr \<Rightarrow> pyclass \<Rightarrow> string \<Rightarrow> bool \<Rightarrow> 'k \<Rightarrow> 'k pytype" where
  "IteratorType_init self c nm param k =
     (Type_init c nm param k)\<lparr>iterator_type_field := Some self\<rparr>"

definition new_instance :: "('a, 'k) variant \<Rightarrow> 'a \<Rightarrow> addr \<Rightarrow> 'k pytype" where
  "new_instance v args self =
     (if iterator_cls (v_cls v) \<and> iterator_init (v_cls v)
      then IteratorType_init self (v_cls v) (v_name v args) (v_param v args) (v_key v args)
      else Type_init (v_cls v) (v_name v args) (v_param v args) (v_key v args))"


text \<open>
  The global state: \<open>typecodes\<close> is the next value of \<^verbatim>\<open>itertools.count()\<close>;
  \<open>typecache\<close> is the dictionary \<^verbatim>\<open>_typecache\<close> in insertion order, from weak
  references to weak references; \<open>heap\<close> holds the instances that are alive (some
  owner outside the registry still holds them, or the collector has not run yet);
  \<open>next_addr\<close> is the address of the next allocation. The code creates one weak
  reference per instance, so a weak reference is identified with the address of its
  referent.
\<close>

record 'k state =
  typecodes :: nat
  typecache :: "(addr \<times> addr) list"
  heap :: "addr \<Rightarrow> 'k pytype option"
  next_addr :: addr

definition init_state :: "'k state" where
  "init_state = \<lparr>typecodes = 0, typecache = [], heap = (\<lambda>a. None), next_addr = 0\<rparr>"

text \<open>
  \<^verbatim>\<open>_autoincr\<close>: \<^verbatim>\<open>next\<close> advances the counter before the assertion is tested.
\<close>

definition autoincr :: "'k state \<Rightarrow> (error + nat) \<times> 'k state" where
  "autoincr s =
     (let n = typecodes s;
          s' = s\<lparr>typecodes := Suc n\<rparr>
      in if n < 2 ^ 32 then (Inr n, s') else (Inl AssertionError, s'))"

text \<open>
  Equality of two dictionary keys, both weak references: the dictionary first tests
  identity; two weak references whose referents are both alive compare as their
  referents do (\<^verbatim>\<open>Type.__eq__\<close>), and otherwise only by identity. Equal referents
  have equal hashes, so the hash test of the dictionary rejects no equal key.
\<close>

definition wr_eq :: "'k state \<Rightarrow> addr \<Rightarrow> addr \<Rightarrow> bool" where
  "wr_eq s w1 w2 =
     (w1 = w2 \<or>
      (case heap s w1 of
         None \<Rightarrow> False
       | Some o1 \<Rightarrow> (case heap s w2 of None \<Rightarrow> False | Some o2 \<Rightarrow> Type_eq o1 o2)))"

text \<open>Calling a weak reference gives its referent, or \<^verbatim>\<open>None\<close> once it is dead.\<close>

definition deref :: "'k state \<Rightarrow> addr \<Rightarrow> addr option" where
  "deref s w = (case heap s w of None \<Rightarrow> None | Some obj \<Rightarrow> Some w)"

text \<open>
  \<^verbatim>\<open>dict.get\<close>, \<^verbatim>\<open>dict.__setitem__\<close> (an equal key already present keeps its place and
  its key object) and \<^verbatim>\<open>dict.pop(key, None)\<close>.
\<close>

fun dict_get :: "('a \<Rightarrow> 'a \<Rightarrow> bool) \<Rightarrow> ('a \<times> 'b) list \<Rightarrow> 'a \<Rightarrow> 'b option" where
  "dict_get eq [] w = None"
| "dict_get eq ((k, v) # kvs) w = (if eq k w then Some v else dict_get eq kvs w)"

fun dict_set :: "('a \<Rightarrow> 'a \<Rightarrow> bool) \<Rightarrow> ('a \<times> 'b) list \<Rightarrow> 'a \<Rightarrow> 'b \<Rightarrow> ('a \<times> 'b) list" where
  "dict_set eq [] w x = [(w, x)]"
| "dict_set eq ((k, v) # kvs) w x =
     (if eq k w then (k, x) # kvs else (k, v) # dict_set eq kvs w x)"

fun dict_pop :: "('a \<Rightarrow> 'a \<Rightarrow> bool) \<Rightarrow> ('a \<times> 'b) list \<Rightarrow> 'a \<Rightarrow> ('a \<times> 'b) list" where
  "dict_pop eq [] w = []"
| "dict_pop eq ((k, v) # kvs) w = (if eq k w then kvs else (k, v) # dict_pop eq kvs w)"

text \<open>\<^verbatim>\<open>_on_type_disposal(wr)\<close>: \<^verbatim>\<open>_typecache.pop(wr, None)\<close>.\<close>

definition on_type_disposal :: "'k state \<Rightarrow> addr \<Rightarrow> 'k state" where
  "on_type_disposal s wr = s\<lparr>typecache := dict_pop (wr_eq s) (typecache s) wr\<rparr>"

text \<open>
  The instance at \<open>a\<close> is reclaimed: its last owner released it and, for an instance
  in a reference cycle, the collector ran. The weak reference is cleared first, then
  its callback runs.
\<close>

definition dispose :: "'k state \<Rightarrow> addr \<Rightarrow> 'k state" where
  "dispose s a = on_type_disposal (s\<lparr>heap := (heap s)(a := None)\<rparr>) a"

definition set_code :: "'k state \<Rightarrow> addr \<Rightarrow> nat \<Rightarrow> 'k state" where
  "set_code s a n =
     s\<lparr>heap := (\<lambda>b. if b = a then map_option (\<lambda>obj. obj\<lparr>code := Some n\<rparr>) (heap s a)
                      else heap s b)\<rparr>"

text \<open>\<^verbatim>\<open>Type.post_init\<close> does nothing.\<close>

definition post_init :: "'k state \<Rightarrow> addr \<Rightarrow> 'k state" where
  "post_init s self = s"

text \<open>
  \<^verbatim>\<open>_TypeMetaclass.__call__\<close>. The provisional instance is allocated at \<open>next_addr\<close>.
  When an interned instance is returned, or when \<^verbatim>\<open>_autoincr\<close> raises, nothing holds
  the provisional instance any longer and it is reclaimed (an instance of an iterator
  class refers to itself and waits for the collector, but nothing can reach it in
  between: its weak reference was never stored).
\<close>

definition TypeMetaclass_call ::
  "'k state \<Rightarrow> ('a, 'k) variant \<Rightarrow> 'a \<Rightarrow> (error + addr) \<times> 'k state" where
  "TypeMetaclass_call s v args =
     (let inst = next_addr s;
          s1 = s\<lparr>heap := (heap s)(inst \<mapsto> new_instance v args inst), next_addr := Suc inst\<rparr>;
          wr = inst;
          orig = dict_get (wr_eq s1) (typecache s1) wr;
          orig = (case orig of None \<Rightarrow> None | Some w \<Rightarrow> deref s1 w)
      in case orig of
           Some p \<Rightarrow> (Inr p, dispose s1 inst)
         | None \<Rightarrow>
             (case autoincr s1 of
                (Inl e, s2) \<Rightarrow> (Inl e, dispose s2 inst)
              | (Inr n, s2) \<Rightarrow>
                  let s3 = set_code s2 inst n;
                      s4 = s3\<lparr>typecache := dict_set (wr_eq s3) (typecache s3) wr wr\<rparr>
                  in (Inr inst, post_init s4 inst)))"

text \<open>
  What happens to the registry over time: a caller constructs a type, or an instance
  is reclaimed.
\<close>

datatype ('a, 'k) event = Construct "('a, 'k) variant" 'a | Dispose addr

fun step :: "'k state \<Rightarrow> ('a, 'k) event \<Rightarrow> 'k state" where
  "step s (Construct v args) = snd (TypeMetaclass_call s v args)"
| "step s (Dispose a) = dispose s a"

definition run :: "'k state \<Rightarrow> ('a, 'k) event list \<Rightarrow> 'k state" where
  "run s evs = foldl step s evs"

definition code_of :: "'k state \<Rightarrow> addr \<Rightarrow> nat option" where
  "code_of s a = (case heap s a of None \<Rightarrow> None | Some obj \<Rightarrow> code obj)"

text \<open>
  The registry invariant: the dictionary has one entry per live instance, mapping its
  weak reference to itself; every live instance lies below the allocation pointer,
  carries a code below the counter and, when \<^verbatim>\<open>IteratorType.__init__\<close> ran for it,
  refers to itself as its iterator type; and live instances that are equal, or that share a
  code, are one instance.
\<close>

definition wf :: "'k state \<Rightarrow> bool" where
  "wf s =
     (distinct (map fst (typecache s))
      \<and> (\<forall>e \<in> set (typecache s). snd e = fst e)
      \<and> (\<forall>a. heap s a \<noteq> None \<longleftrightarrow> a \<in> fst ` set (typecache s))
      \<and> (\<forall>a obj. heap s a = Some obj \<longrightarrow>
            a < next_addr s
            \<and> (\<exists>c. code obj = Some c \<and> c < typecodes s)
            \<and> iterator_type_field obj = (if iterator_cls (cls obj) \<and> iterator_init (cls obj) then Some a else None))
      \<and> (\<forall>a b oa ob. heap s a = Some oa \<longrightarrow> heap s b = Some ob \<longrightarrow>
            Type_eq oa ob \<or> code oa = code ob \<longrightarrow> a = b))"

text \<open>
  Modelled from the spec: the class \<^verbatim>\<open>Array\<close> of \<^verbatim>\<open>numba/types.py\<close>, which
  \<^verbatim>\<open>__getitem__\<close> imports and calls as \<^verbatim>\<open>Array(dtype=self, ndim=ndim, layout=layout)\<close>.
  The spec describes it as a type variant made of a rank, a dtype and a layout; like
  every subclass of \<^verbatim>\<open>Type\<close> it is constructed through \<^verbatim>\<open>_TypeMetaclass.__call__\<close>.
  The class itself, with the name, flag and key it computes from its three arguments, is
  the parameter \<open>Array\<close>.
\<close>

definition construct_Array ::
  "(addr \<times> nat \<times> string, 'k) variant \<Rightarrow> addr \<Rightarrow> nat \<Rightarrow> string
   \<Rightarrow> 'k state \<Rightarrow> (error + addr) \<times> 'k state" where
  "construct_Array Array dtype ndim layout s = TypeMetaclass_call s Array (dtype, ndim, layout)"

text \<open>
  Indexing \<open>self\<close> with \<open>idx\<close> in the state \<open>s\<close> returns an interned Array type of the
  given rank and layout with \<open>self\<close> as dtype: \<^verbatim>\<open>__getitem__\<close> raises nothing and makes the
  call \<^verbatim>\<open>Array(dtype=self, ndim=ndim, layout=layout)\<close> through the metaclass; and, unless
  the counter of codes is exhausted, that call returns an instance that is alive, has the
  class \<open>Array\<close> and the key of these three arguments, carries a code, is held by the
  registry under its own weak reference, and is the instance returned when the same
  index is requested again.
\<close>

definition getitem_interns ::
  "(addr \<times> nat \<times> string, 'k) variant \<Rightarrow> 'k state \<Rightarrow> addr \<Rightarrow> pyobj \<Rightarrow> nat \<Rightarrow> string \<Rightarrow> bool" where
  "getitem_interns Array s self idx ndim layout =
     (case Type_getitem (construct_Array Array) self idx of
        Inl e \<Rightarrow> False
      | Inr construct \<Rightarrow>
          construct s = TypeMetaclass_call s Array (self, ndim, layout)
          \<and> (typecodes s < 2 ^ 32 \<longrightarrow>
               (case construct s of
                  (Inl e, s') \<Rightarrow> False
                | (Inr p, s') \<Rightarrow>
                    (case heap s' p of
                       None \<Rightarrow> False
                     | Some obj \<Rightarrow>
                         cls obj = v_cls Array
                         \<and> key obj = v_key Array (self, ndim, layout)
                         \<and> code obj \<noteq> None)
                    \<and> dict_get (=) (typecache s') p = Some p
                    \<and> fst (construct s') = Inr p)))"

section \<open>Equality and hashing are consistent\<close>

text \<open>
  Claim C2. For all type descriptors A and B, \<open>A == B\<close> holds exactly when A and B have
  the same class and equal keys; \<open>A == B\<close> implies \<open>hash(A) == hash(B)\<close>; and two
  descriptors of different classes are never equal, even when their keys are equal.
\<close>

theorem Type_eq_hash_consistent:
  "(Type_eq A B \<longleftrightarrow> cls A = cls B \<and> key A = key B)
   \<and> (Type_eq A B \<longrightarrow> Type_hash h A = Type_hash h B)
   \<and> (cls A \<noteq> cls B \<longrightarrow> \<not> Type_eq A B)
   \<and> (Type_ne A B \<longleftrightarrow> \<not> Type_eq A B)"
  by (simp add: Type_eq_def Type_hash_def Type_ne_def)

theorem Type_eq_hash_consistent_witness:
  "Type_eq
     \<lparr>cls = \<lparr>cname = ''Integer'', iterator_cls = False, iterator_init = False\<rparr>, name = ''int32'',
      is_parametric = False, key = ''int32'', code = Some 0, iterator_type_field = None\<rparr>
     \<lparr>cls = \<lparr>cname = ''Integer'', iterator_cls = False, iterator_init = False\<rparr>, name = ''int32'',
      is_parametric = False, key = ''int32'', code = None, iterator_type_field = None\<rparr>
   \<and> Type_hash (\<lambda>k. int (length k))
        \<lparr>cls = \<lparr>cname = ''Integer'', iterator_cls = False, iterator_init = False\<rparr>, name = ''int32'',
         is_parametric = False, key = ''int32'', code = Some 0, iterator_type_field = None\<rparr>
      = Type_hash (\<lambda>k. int (length k))
        \<lparr>cls = \<lparr>cname = ''Integer'', iterator_cls = False, iterator_init = False\<rparr>, name = ''int32'',
         is_parametric = False, key = ''int32'', code = None, iterator_type_field = None\<rparr>
   \<and> \<not> Type_eq
        \<lparr>cls = \<lparr>cname = ''Integer'', iterator_cls = False, iterator_init = False\<rparr>, name = ''int32'',
         is_parametric = False, key = ''int32'', code = Some 0, iterator_type_field = None\<rparr>
        \<lparr>cls = \<lparr>cname = ''Dummy'', iterator_cls = False, iterator_init = False\<rparr>, name = ''int32'',
         is_parametric = False, key = ''int32'', code = Some 1, iterator_type_field = None\<rparr>"
  using Type_eq_hash_consistent
    [of "\<lparr>cls = \<lparr>cname = ''Integer'', iterator_cls = False, iterator_init = False\<rparr>, name = ''int32'',
          is_parametric = False, key = ''int32'', code = Some 0, iterator_type_field = None\<rparr>"
        "\<lparr>cls = \<lparr>cname = ''Integer'', iterator_cls = False, iterator_init = False\<rparr>, name = ''int32'',
          is_parametric = False, key = ''int32'', code = None, iterator_type_field = None\<rparr>"
        "\<lambda>k. int (length k)"]
    Type_eq_hash_consistent
    [of "\<lparr>cls = \<lparr>cname = ''Integer'', iterator_cls = False, iterator_init = False\<rparr>, name = ''int32'',
          is_parametric = False, key = ''int32'', code = Some 0, iterator_type_field = None\<rparr>"
        "\<lparr>cls = \<lparr>cname = ''Dummy'', iterator_cls = False, iterator_init = False\<rparr>, name = ''int32'',
          is_parametric = False, key = ''int32'', code = Some 1, iterator_type_field = None\<rparr>"
        "\<lambda>k. int (length k)"]
  by simp

section \<open>Rank and layout of a derived array type\<close>

text \<open>
  Claim C10. When a type descriptor is indexed with a tuple of slices in which both the
  first and the last slice have step 1, the layout is F: the test of the first slice
  comes before the test of the last.
\<close>

theorem tuple_first_and_last_step_one_is_F:
  assumes "xs \<noteq> []"
    and "hd xs = PySlice a b (PyInt 1)"
    and "last xs = PySlice c d (PyInt 1)"
  shows "Type_getitem Array self (PyTuple xs) = Inr (Array self (length xs) ''F'')"
  using assms by (simp add: Type_getitem_def sequence_spec_def)

theorem tuple_first_and_last_step_one_is_F_witness:
  "Type_getitem (\<lambda>dtype ndim layout. (dtype, ndim, layout)) (7::addr)
     (PyTuple [PySlice PyNone PyNone (PyInt 1), PySlice PyNone PyNone (PyInt 2),
               PySlice PyNone PyNone (PyInt 1)])
   = Inr (7, 3, ''F'')"
  using tuple_first_and_last_step_one_is_F
    [of "[PySlice PyNone PyNone (PyInt 1), PySlice PyNone PyNone (PyInt 2),
          PySlice PyNone PyNone (PyInt 1)]" PyNone PyNone PyNone PyNone
        "\<lambda>dtype ndim layout. (dtype, ndim, layout)" 7]
  by simp

section \<open>Dictionary operations and the registry invariant\<close>

lemma dict_get_absent:
  "\<forall>k \<in> fst ` set kvs. \<not> eq k w \<Longrightarrow> dict_get eq kvs w = None"
  by (induction kvs) auto

lemma dict_set_absent:
  "\<forall>k \<in> fst ` set kvs. \<not> eq k w \<Longrightarrow> dict_set eq kvs w x = kvs @ [(w, x)]"
  by (induction kvs) auto

lemma dict_pop_absent:
  "\<forall>k \<in> fst ` set kvs. \<not> eq k w \<Longrightarrow> dict_pop eq kvs w = kvs"
  by (induction kvs) auto

lemma dict_get_present:
  "(k, v) \<in> set kvs \<Longrightarrow> eq k w \<Longrightarrow> \<forall>k' \<in> fst ` set kvs. eq k' w \<longrightarrow> k' = k \<Longrightarrow>
   distinct (map fst kvs) \<Longrightarrow> dict_get eq kvs w = Some v"
proof (induction kvs)
  case Nil
  then show ?case by simp
next
  case (Cons e kvs)
  obtain k0 v0 where e: "e = (k0, v0)" by (cases e)
  show ?case
  proof (cases "eq k0 w")
    case True
    have "k0 \<in> fst ` set (e # kvs)" using e by simp
    with Cons.prems(3) True have k0: "k0 = k" by blast
    have "k \<notin> fst ` set kvs" using Cons.prems(4) e k0 by simp
    then have "(k, v) \<notin> set kvs" by force
    with Cons.prems(1) e have "v0 = v" by simp
    then show ?thesis using True e by simp
  next
    case False
    have "(k, v) \<noteq> e" using False Cons.prems(2) e by auto
    with Cons.prems(1) have in': "(k, v) \<in> set kvs" by simp
    have u': "\<forall>k' \<in> fst ` set kvs. eq k' w \<longrightarrow> k' = k" using Cons.prems(3) by simp
    have d': "distinct (map fst kvs)" using Cons.prems(4) by simp
    have "dict_get eq kvs w = Some v" using Cons.IH[OF in' Cons.prems(2) u' d'] .
    then show ?thesis using False e by simp
  qed
qed

lemma dict_pop_identity:
  "distinct (map fst kvs) \<Longrightarrow> \<forall>k \<in> fst ` set kvs. eq k w \<longleftrightarrow> k = w \<Longrightarrow>
   dict_pop eq kvs w = filter (\<lambda>e. fst e \<noteq> w) kvs"
proof (induction kvs)
  case Nil
  then show ?case by simp
next
  case (Cons e kvs)
  obtain k0 v0 where e: "e = (k0, v0)" by (cases e)
  show ?case
  proof (cases "k0 = w")
    case True
    with Cons.prems e have "w \<notin> fst ` set kvs" by simp
    then have "filter (\<lambda>e. fst e \<noteq> w) kvs = kvs"
      by (auto simp: filter_id_conv)
    with True Cons.prems e show ?thesis by simp
  next
    case False
    with Cons e show ?thesis by simp
  qed
qed

lemma wf_distinct: "wf s \<Longrightarrow> distinct (map fst (typecache s))"
  unfolding wf_def by blast

lemma wf_snd_fst: "wf s \<Longrightarrow> e \<in> set (typecache s) \<Longrightarrow> snd e = fst e"
  unfolding wf_def by blast

lemma wf_live_iff: "wf s \<Longrightarrow> (heap s a \<noteq> None) = (a \<in> fst ` set (typecache s))"
  unfolding wf_def by blast

lemma wf_live_below: "wf s \<Longrightarrow> heap s a = Some obj \<Longrightarrow> a < next_addr s"
  unfolding wf_def by blast

lemma wf_live_code: "wf s \<Longrightarrow> heap s a = Some obj \<Longrightarrow> \<exists>c. code obj = Some c \<and> c < typecodes s"
  unfolding wf_def by blast

lemma wf_live_iter:
  "wf s \<Longrightarrow> heap s a = Some obj \<Longrightarrow>
   iterator_type_field obj = (if iterator_cls (cls obj) \<and> iterator_init (cls obj) then Some a else None)"
  unfolding wf_def by blast

lemma wf_unique_eq:
  "wf s \<Longrightarrow> heap s a = Some oa \<Longrightarrow> heap s b = Some ob \<Longrightarrow> Type_eq oa ob \<Longrightarrow> a = b"
  unfolding wf_def by blast

lemma wf_unique_code:
  "wf s \<Longrightarrow> heap s a = Some oa \<Longrightarrow> heap s b = Some ob \<Longrightarrow> code oa = code ob \<Longrightarrow> a = b"
  unfolding wf_def by blast

lemma wf_fresh_addr: "wf s \<Longrightarrow> next_addr s \<le> a \<Longrightarrow> heap s a = None"
proof (cases "heap s a")
  case None
  then show ?thesis .
next
  case (Some obj)
  assume "wf s" "next_addr s \<le> a"
  with Some wf_live_below [of s a obj] show ?thesis by simp
qed

lemma wf_fresh_notin: "wf s \<Longrightarrow> next_addr s \<le> a \<Longrightarrow> a \<notin> fst ` set (typecache s)"
  using wf_fresh_addr [of s a] wf_live_iff [of s a] by simp

lemma wf_cached: "wf s \<Longrightarrow> heap s p = Some obj \<Longrightarrow> (p, p) \<in> set (typecache s)"
proof -
  assume w: "wf s" and h: "heap s p = Some obj"
  from h wf_live_iff [OF w, of p] have "p \<in> fst ` set (typecache s)" by simp
  then obtain e where e: "e \<in> set (typecache s)" "fst e = p" by auto
  with wf_snd_fst [OF w, of e] have "snd e = p" by simp
  with e have "e = (p, p)" by (simp add: prod_eq_iff)
  with e show ?thesis by simp
qed

lemma wf_key_alive: "wf s \<Longrightarrow> k \<in> fst ` set (typecache s) \<Longrightarrow> \<exists>obj. heap s k = Some obj"
  using wf_live_iff [of s k] by auto

lemma new_instance_fields [simp]:
  "cls (new_instance v a i) = v_cls v" "key (new_instance v a i) = v_key v a"
  "code (new_instance v a i) = None"
  "iterator_type_field (new_instance v a i) = (if iterator_cls (v_cls v) \<and> iterator_init (v_cls v) then Some i else None)"
  by (simp_all add: new_instance_def Type_init_def IteratorType_init_def)

lemma wr_eq_dead: "heap s a = None \<Longrightarrow> wr_eq s k a = (k = a)"
  by (simp add: wr_eq_def split: option.splits)

lemma dispose_eq:
  assumes "wf s"
  shows "dispose s a =
    s\<lparr>heap := (heap s)(a := None), typecache := filter (\<lambda>e. fst e \<noteq> a) (typecache s)\<rparr>"
proof -
  let ?s' = "s\<lparr>heap := (heap s)(a := None)\<rparr>"
  have "heap ?s' a = None" by simp
  then have "\<forall>k \<in> fst ` set (typecache s). wr_eq ?s' k a \<longleftrightarrow> k = a"
    using wr_eq_dead [of ?s' a] by blast
  with wf_distinct [OF assms]
  have "dict_pop (wr_eq ?s') (typecache s) a = filter (\<lambda>e. fst e \<noteq> a) (typecache s)"
    by (rule dict_pop_identity)
  then show ?thesis by (simp add: dispose_def on_type_disposal_def)
qed

lemma dispose_provisional:
  assumes "a \<notin> fst ` set (typecache s)"
  shows "dispose s a = s\<lparr>heap := (heap s)(a := None)\<rparr>"
proof -
  let ?s' = "s\<lparr>heap := (heap s)(a := None)\<rparr>"
  have "\<forall>k \<in> fst ` set (typecache s). \<not> wr_eq ?s' k a"
  proof
    fix k assume "k \<in> fst ` set (typecache s)"
    with assms have "k \<noteq> a" by auto
    then show "\<not> wr_eq ?s' k a" by (simp add: wr_eq_dead)
  qed
  then have "dict_pop (wr_eq ?s') (typecache s) a = typecache s"
    by (rule dict_pop_absent)
  then show ?thesis by (simp add: dispose_def on_type_disposal_def)
qed

lemma call_dup:
  assumes w: "wf s" and h: "heap s p = Some obj"
    and c: "cls obj = v_cls v" and k: "key obj = v_key v a"
  shows "TypeMetaclass_call s v a = (Inr p, s\<lparr>next_addr := Suc (next_addr s)\<rparr>)"
proof -
  let ?i = "next_addr s"
  let ?s1 = "s\<lparr>heap := (heap s)(?i \<mapsto> new_instance v a ?i), next_addr := Suc ?i\<rparr>"
  have fresh: "heap s ?i = None" using w by (simp add: wf_fresh_addr)
  have notin: "?i \<notin> fst ` set (typecache s)" using w by (simp add: wf_fresh_notin)
  have pi: "p \<noteq> ?i" using fresh h by auto
  have pc: "(p, p) \<in> set (typecache s)" using w h by (rule wf_cached)
  have eqp: "wr_eq ?s1 p ?i" using pi h c k by (simp add: wr_eq_def Type_eq_def)
  have uniq: "\<forall>k' \<in> fst ` set (typecache s). wr_eq ?s1 k' ?i \<longrightarrow> k' = p"
  proof (intro ballI impI)
    fix k' assume k': "k' \<in> fst ` set (typecache s)" and e: "wr_eq ?s1 k' ?i"
    from k' notin have ne: "k' \<noteq> ?i" by blast
    from w k' obtain ob where ob: "heap s k' = Some ob" by (auto dest: wf_key_alive)
    from e ne ob have "Type_eq ob obj" using c k by (simp add: wr_eq_def Type_eq_def)
    with w ob h show "k' = p" by (rule wf_unique_eq)
  qed
  have get: "dict_get (wr_eq ?s1) (typecache s) ?i = Some p"
    using pc eqp uniq wf_distinct [OF w] by (rule dict_get_present)
  have der: "deref ?s1 p = Some p" using pi h by (simp add: deref_def)
  have "?i \<notin> fst ` set (typecache ?s1)" using notin by simp
  then have disp: "dispose ?s1 ?i = ?s1\<lparr>heap := (heap ?s1)(?i := None)\<rparr>"
    by (rule dispose_provisional)
  have hp: "(heap s)(?i := None) = heap s" using fresh by auto
  have "TypeMetaclass_call s v a = (Inr p, dispose ?s1 ?i)"
    unfolding TypeMetaclass_call_def Let_def using get der by simp
  also have "dispose ?s1 ?i = s\<lparr>next_addr := Suc ?i\<rparr>"
    unfolding disp using hp by simp
  finally show ?thesis .
qed

lemma call_fresh:
  assumes w: "wf s"
    and nf: "\<And>p obj. heap s p = Some obj \<Longrightarrow> \<not> (cls obj = v_cls v \<and> key obj = v_key v a)"
  shows "TypeMetaclass_call s v a =
    (if typecodes s < 2 ^ 32 then
       (Inr (next_addr s),
        s\<lparr>typecodes := Suc (typecodes s),
          typecache := typecache s @ [(next_addr s, next_addr s)],
          heap := (heap s)(next_addr s \<mapsto> (new_instance v a (next_addr s))\<lparr>code := Some (typecodes s)\<rparr>),
          next_addr := Suc (next_addr s)\<rparr>)
     else (Inl AssertionError, s\<lparr>typecodes := Suc (typecodes s), next_addr := Suc (next_addr s)\<rparr>))"
proof -
  let ?i = "next_addr s"
  let ?n = "new_instance v a ?i"
  let ?s1 = "s\<lparr>heap := (heap s)(?i \<mapsto> ?n), next_addr := Suc ?i\<rparr>"
  have fresh: "heap s ?i = None" using w by (simp add: wf_fresh_addr)
  have notin: "?i \<notin> fst ` set (typecache s)" using w by (simp add: wf_fresh_notin)
  have other: "\<not> (cls ob = v_cls v \<and> key ob = v_key v a)"
    if "k' \<in> fst ` set (typecache s)" "heap s k' = Some ob" for k' ob
    using nf that(2) by blast
  have no1: "\<forall>k' \<in> fst ` set (typecache s). \<not> wr_eq ?s1 k' ?i"
  proof
    fix k' assume k': "k' \<in> fst ` set (typecache s)"
    from k' notin have ne: "k' \<noteq> ?i" by blast
    from w k' obtain ob where ob: "heap s k' = Some ob" by (auto dest: wf_key_alive)
    from other [OF k' ob] ne ob show "\<not> wr_eq ?s1 k' ?i"
      by (simp add: wr_eq_def Type_eq_def)
  qed
  have get: "dict_get (wr_eq ?s1) (typecache s) ?i = None"
    using no1 by (rule dict_get_absent)
  show ?thesis
  proof (cases "typecodes s < 2 ^ 32")
    case True
    let ?s2 = "?s1\<lparr>typecodes := Suc (typecodes s)\<rparr>"
    let ?s3 = "set_code ?s2 ?i (typecodes s)"
    have h3: "heap ?s3 = (heap s)(?i \<mapsto> ?n\<lparr>code := Some (typecodes s)\<rparr>)"
      by (rule ext) (simp add: set_code_def)
    have tc3: "typecache ?s3 = typecache s" by (simp add: set_code_def)
    have no3: "\<forall>k' \<in> fst ` set (typecache s). \<not> wr_eq ?s3 k' ?i"
    proof
      fix k' assume k': "k' \<in> fst ` set (typecache s)"
      from k' notin have ne: "k' \<noteq> ?i" by blast
      from w k' obtain ob where ob: "heap s k' = Some ob" by (auto dest: wf_key_alive)
      from other [OF k' ob] ne ob show "\<not> wr_eq ?s3 k' ?i"
        by (simp add: wr_eq_def Type_eq_def h3)
    qed
    have set: "dict_set (wr_eq ?s3) (typecache s) ?i ?i = typecache s @ [(?i, ?i)]"
      using no3 by (rule dict_set_absent)
    have s3: "?s3 = s\<lparr>typecodes := Suc (typecodes s),
                      heap := (heap s)(?i \<mapsto> ?n\<lparr>code := Some (typecodes s)\<rparr>),
                      next_addr := Suc ?i\<rparr>"
      using h3 by (simp add: set_code_def)
    have au: "autoincr ?s1 = (Inr (typecodes s), ?s2)"
      using True by (simp add: autoincr_def Let_def)
    have "TypeMetaclass_call s v a =
          (Inr ?i, post_init (?s3\<lparr>typecache := dict_set (wr_eq ?s3) (typecache ?s3) ?i ?i\<rparr>) ?i)"
      unfolding TypeMetaclass_call_def Let_def using get au by simp
    also have "\<dots> = (Inr ?i, ?s3\<lparr>typecache := typecache s @ [(?i, ?i)]\<rparr>)"
      unfolding tc3 set by (simp add: post_init_def)
    finally show ?thesis using True unfolding s3 by simp
  next
    case False
    let ?s2 = "?s1\<lparr>typecodes := Suc (typecodes s)\<rparr>"
    have "?i \<notin> fst ` set (typecache ?s2)" using notin by simp
    then have disp: "dispose ?s2 ?i = ?s2\<lparr>heap := (heap ?s2)(?i := None)\<rparr>"
      by (rule dispose_provisional)
    have hp: "(heap s)(?i := None) = heap s" using fresh by auto
    have au: "autoincr ?s1 = (Inl AssertionError, ?s2)"
      using False by (simp add: autoincr_def Let_def)
    have "TypeMetaclass_call s v a = (Inl AssertionError, dispose ?s2 ?i)"
      unfolding TypeMetaclass_call_def Let_def using get au by simp
    also have "dispose ?s2 ?i = s\<lparr>typecodes := Suc (typecodes s), next_addr := Suc ?i\<rparr>"
      unfolding disp using hp by simp
    finally show ?thesis using False by simp
  qed
qed

lemma wfI:
  assumes "distinct (map fst (typecache s))"
    and "\<And>e. e \<in> set (typecache s) \<Longrightarrow> snd e = fst e"
    and "\<And>a. (heap s a \<noteq> None) = (a \<in> fst ` set (typecache s))"
    and "\<And>a obj. heap s a = Some obj \<Longrightarrow> a < next_addr s"
    and "\<And>a obj. heap s a = Some obj \<Longrightarrow> \<exists>c. code obj = Some c \<and> c < typecodes s"
    and "\<And>a obj. heap s a = Some obj \<Longrightarrow>
           iterator_type_field obj = (if iterator_cls (cls obj) \<and> iterator_init (cls obj) then Some a else None)"
    and "\<And>a b oa ob. heap s a = Some oa \<Longrightarrow> heap s b = Some ob \<Longrightarrow> Type_eq oa ob \<Longrightarrow> a = b"
    and "\<And>a b oa ob. heap s a = Some oa \<Longrightarrow> heap s b = Some ob \<Longrightarrow> code oa = code ob \<Longrightarrow> a = b"
  shows "wf s"
  unfolding wf_def using assms by blast

lemma wf_init: "wf init_state"
  by (rule wfI) (simp_all add: init_state_def)

lemma wf_advance:
  assumes w: "wf s" and n: "next_addr s \<le> n" and m: "typecodes s \<le> m"
  shows "wf (s\<lparr>typecodes := m, next_addr := n\<rparr>)"
proof (rule wfI)
  show "distinct (map fst (typecache (s\<lparr>typecodes := m, next_addr := n\<rparr>)))"
    using wf_distinct [OF w] by simp
next
  fix e assume "e \<in> set (typecache (s\<lparr>typecodes := m, next_addr := n\<rparr>))"
  then show "snd e = fst e" using wf_snd_fst [OF w, of e] by simp
next
  fix a show "(heap (s\<lparr>typecodes := m, next_addr := n\<rparr>) a \<noteq> None)
      = (a \<in> fst ` set (typecache (s\<lparr>typecodes := m, next_addr := n\<rparr>)))"
    using wf_live_iff [OF w, of a] by simp
next
  fix a obj assume "heap (s\<lparr>typecodes := m, next_addr := n\<rparr>) a = Some obj"
  then have h: "heap s a = Some obj" by simp
  show "a < next_addr (s\<lparr>typecodes := m, next_addr := n\<rparr>)"
    using wf_live_below [OF w h] n by simp
  show "\<exists>c. code obj = Some c \<and> c < typecodes (s\<lparr>typecodes := m, next_addr := n\<rparr>)"
    using wf_live_code [OF w h] m by auto
  show "iterator_type_field obj = (if iterator_cls (cls obj) \<and> iterator_init (cls obj) then Some a else None)"
    using wf_live_iter [OF w h] .
next
  fix a b oa ob
  assume "heap (s\<lparr>typecodes := m, next_addr := n\<rparr>) a = Some oa"
    and "heap (s\<lparr>typecodes := m, next_addr := n\<rparr>) b = Some ob"
  then have h: "heap s a = Some oa" "heap s b = Some ob" by simp_all
  show "a = b" if "Type_eq oa ob" using wf_unique_eq [OF w h that] .
  show "a = b" if "code oa = code ob" using wf_unique_code [OF w h that] .
qed

lemma wf_dispose:
  assumes w: "wf s"
  shows "wf (dispose s x)"
proof -
  let ?s' = "s\<lparr>heap := (heap s)(x := None), typecache := filter (\<lambda>e. fst e \<noteq> x) (typecache s)\<rparr>"
  have keys: "fst ` set (typecache ?s') = fst ` set (typecache s) - {x}" by auto
  have old: "heap s a = Some obj" if "heap ?s' a = Some obj" for a obj
    using that by (simp split: if_splits)
  have "wf ?s'"
  proof (rule wfI)
    show "distinct (map fst (typecache ?s'))"
      using wf_distinct [OF w] by (simp add: distinct_map_filter)
  next
    fix e assume "e \<in> set (typecache ?s')"
    then show "snd e = fst e" using wf_snd_fst [OF w, of e] by simp
  next
    fix a show "(heap ?s' a \<noteq> None) = (a \<in> fst ` set (typecache ?s'))"
      unfolding keys using wf_live_iff [OF w, of a] by simp
  next
    fix a obj assume "heap ?s' a = Some obj"
    then have h: "heap s a = Some obj" by (rule old)
    show "a < next_addr ?s'" using wf_live_below [OF w h] by simp
    show "\<exists>c. code obj = Some c \<and> c < typecodes ?s'" using wf_live_code [OF w h] by simp
    show "iterator_type_field obj = (if iterator_cls (cls obj) \<and> iterator_init (cls obj) then Some a else None)"
      using wf_live_iter [OF w h] .
  next
    fix a b oa ob
    assume "heap ?s' a = Some oa" and "heap ?s' b = Some ob"
    then have h: "heap s a = Some oa" "heap s b = Some ob" by (simp_all split: if_splits)
    show "a = b" if "Type_eq oa ob" using wf_unique_eq [OF w h that] .
    show "a = b" if "code oa = code ob" using wf_unique_code [OF w h that] .
  qed
  then show ?thesis using dispose_eq [OF w, of x] by simp
qed

lemma wf_insert:
  assumes w: "wf s"
    and nf: "\<And>p obj. heap s p = Some obj \<Longrightarrow> \<not> (cls obj = v_cls v \<and> key obj = v_key v a)"
  shows "wf (s\<lparr>typecodes := Suc (typecodes s),
               typecache := typecache s @ [(next_addr s, next_addr s)],
               heap := (heap s)(next_addr s \<mapsto> (new_instance v a (next_addr s))\<lparr>code := Some (typecodes s)\<rparr>),
               next_addr := Suc (next_addr s)\<rparr>)"
    (is "wf ?s'")
proof (rule wfI)
  let ?i = "next_addr s"
  let ?n = "(new_instance v a ?i)\<lparr>code := Some (typecodes s)\<rparr>"
  have fresh: "heap s ?i = None" using w by (simp add: wf_fresh_addr)
  have notin: "?i \<notin> fst ` set (typecache s)" using w by (simp add: wf_fresh_notin)
  have hcases: "(a' = ?i \<and> obj = ?n) \<or> (a' \<noteq> ?i \<and> heap s a' = Some obj)"
    if "heap ?s' a' = Some obj" for a' obj
    using that by (cases "a' = ?i") simp_all
  show "distinct (map fst (typecache ?s'))"
    using wf_distinct [OF w] notin by simp
  show "snd e = fst e" if "e \<in> set (typecache ?s')" for e
    using that wf_snd_fst [OF w, of e] by auto
  show "(heap ?s' a' \<noteq> None) = (a' \<in> fst ` set (typecache ?s'))" for a'
    using wf_live_iff [OF w, of a'] by (cases "a' = ?i") auto
  show "a' < next_addr ?s'" if "heap ?s' a' = Some obj" for a' obj
    using hcases [OF that] wf_live_below [OF w, of a' obj] by auto
  show "\<exists>c. code obj = Some c \<and> c < typecodes ?s'" if "heap ?s' a' = Some obj" for a' obj
    using hcases [OF that] wf_live_code [OF w, of a' obj] by auto
  show "iterator_type_field obj = (if iterator_cls (cls obj) \<and> iterator_init (cls obj) then Some a' else None)"
    if "heap ?s' a' = Some obj" for a' obj
    using hcases [OF that] wf_live_iter [OF w, of a' obj] by auto
  show "a' = b" if ha: "heap ?s' a' = Some oa" and hb: "heap ?s' b = Some ob"
    and eq: "Type_eq oa ob" for a' b oa ob
  proof -
    from hcases [OF ha] hcases [OF hb] consider
        "a' = ?i" "b = ?i"
      | "a' = ?i" "oa = ?n" "heap s b = Some ob"
      | "b = ?i" "ob = ?n" "heap s a' = Some oa"
      | "heap s a' = Some oa" "heap s b = Some ob"
      by blast
    then show ?thesis
    proof cases
      case 1 then show ?thesis by simp
    next
      case 2
      with eq have "cls ob = v_cls v \<and> key ob = v_key v a" by (simp add: Type_eq_def)
      with nf [OF 2(3)] show ?thesis by simp
    next
      case 3
      with eq have "cls oa = v_cls v \<and> key oa = v_key v a" by (simp add: Type_eq_def)
      with nf [OF 3(3)] show ?thesis by simp
    next
      case 4 with eq show ?thesis using wf_unique_eq [OF w] by blast
    qed
  qed
  show "a' = b" if ha: "heap ?s' a' = Some oa" and hb: "heap ?s' b = Some ob"
    and eq: "code oa = code ob" for a' b oa ob
  proof -
    from hcases [OF ha] hcases [OF hb] consider
        "a' = ?i" "b = ?i"
      | "a' = ?i" "oa = ?n" "heap s b = Some ob"
      | "b = ?i" "ob = ?n" "heap s a' = Some oa"
      | "heap s a' = Some oa" "heap s b = Some ob"
      by blast
    then show ?thesis
    proof cases
      case 1 then show ?thesis by simp
    next
      case 2
      with eq wf_live_code [OF w 2(3)] show ?thesis by auto
    next
      case 3
      with eq wf_live_code [OF w 3(3)] show ?thesis by auto
    next
      case 4 with eq show ?thesis using wf_unique_code [OF w] by blast
    qed
  qed
qed

lemma wf_call:
  assumes w: "wf s"
  shows "wf (snd (TypeMetaclass_call s v a))"
proof (cases "\<exists>p obj. heap s p = Some obj \<and> cls obj = v_cls v \<and> key obj = v_key v a")
  case True
  then obtain p obj where "heap s p = Some obj" "cls obj = v_cls v" "key obj = v_key v a"
    by blast
  from call_dup [OF w this]
  have "snd (TypeMetaclass_call s v a) = s\<lparr>typecodes := typecodes s, next_addr := Suc (next_addr s)\<rparr>"
    by simp
  then show ?thesis using wf_advance [OF w, of "Suc (next_addr s)" "typecodes s"] by simp
next
  case False
  then have nf: "\<And>p obj. heap s p = Some obj \<Longrightarrow> \<not> (cls obj = v_cls v \<and> key obj = v_key v a)"
    by blast
  show ?thesis
  proof (cases "typecodes s < 2 ^ 32")
    case True
    with call_fresh [OF w nf] wf_insert [OF w nf] show ?thesis by simp
  next
    case False
    with call_fresh [OF w nf] wf_advance [OF w, of "Suc (next_addr s)" "Suc (typecodes s)"]
    show ?thesis by simp
  qed
qed

lemma wf_step: "wf s \<Longrightarrow> wf (step s ev)"
  by (cases ev) (simp_all add: wf_call wf_dispose)

lemma wf_run: "wf s \<Longrightarrow> wf (run s evs)"
  unfolding run_def by (induction evs arbitrary: s) (simp_all add: wf_step)

lemma wf_reachable: "wf (run init_state evs)"
  by (rule wf_run) (rule wf_init)

lemma run_append: "run s (evs @ evs') = run (run s evs) evs'"
  by (simp add: run_def)

lemma run_Cons: "run s (ev # evs) = run (step s ev) evs"
  by (simp add: run_def)

lemma run_Nil: "run s [] = s"
  by (simp add: run_def)

lemma call_cases:
  assumes w: "wf s"
  obtains
    (dup) p obj where "heap s p = Some obj" "cls obj = v_cls v" "key obj = v_key v a"
      "TypeMetaclass_call s v a = (Inr p, s\<lparr>next_addr := Suc (next_addr s)\<rparr>)"
  | (new) "\<And>p obj. heap s p = Some obj \<Longrightarrow> \<not> (cls obj = v_cls v \<and> key obj = v_key v a)"
      "typecodes s < 2 ^ 32"
      "TypeMetaclass_call s v a =
         (Inr (next_addr s),
          s\<lparr>typecodes := Suc (typecodes s),
            typecache := typecache s @ [(next_addr s, next_addr s)],
            heap := (heap s)(next_addr s \<mapsto> (new_instance v a (next_addr s))\<lparr>code := Some (typecodes s)\<rparr>),
            next_addr := Suc (next_addr s)\<rparr>)"
  | (full) "\<And>p obj. heap s p = Some obj \<Longrightarrow> \<not> (cls obj = v_cls v \<and> key obj = v_key v a)"
      "\<not> typecodes s < 2 ^ 32"
      "TypeMetaclass_call s v a =
         (Inl AssertionError, s\<lparr>typecodes := Suc (typecodes s), next_addr := Suc (next_addr s)\<rparr>)"
proof (cases "\<exists>p obj. heap s p = Some obj \<and> cls obj = v_cls v \<and> key obj = v_key v a")
  case True
  then obtain p obj where h: "heap s p = Some obj" "cls obj = v_cls v" "key obj = v_key v a"
    by blast
  from h call_dup [OF w h] show ?thesis by (rule dup)
next
  case False
  then have nf: "\<And>p obj. heap s p = Some obj \<Longrightarrow> \<not> (cls obj = v_cls v \<and> key obj = v_key v a)"
    by blast
  show ?thesis
  proof (cases "typecodes s < 2 ^ 32")
    case True
    with call_fresh [OF w nf] show ?thesis using nf new by simp
  next
    case False
    with call_fresh [OF w nf] show ?thesis using nf full by simp
  qed
qed

lemma step_typecodes_mono: "wf s \<Longrightarrow> typecodes s \<le> typecodes (step s ev)"
proof (cases ev)
  case (Construct v a)
  assume w: "wf s"
  show ?thesis using w
    by (cases rule: call_cases [of s v a]) (simp_all add: Construct)
next
  case (Dispose x)
  assume "wf s"
  then show ?thesis by (simp add: Dispose dispose_eq)
qed

lemma step_next_addr_mono: "wf s \<Longrightarrow> next_addr s \<le> next_addr (step s ev)"
proof (cases ev)
  case (Construct v a)
  assume w: "wf s"
  show ?thesis using w
    by (cases rule: call_cases [of s v a]) (simp_all add: Construct)
next
  case (Dispose x)
  assume "wf s"
  then show ?thesis by (simp add: Dispose dispose_eq)
qed

lemma step_heap:
  assumes w: "wf s" and h: "heap (step s ev) a = Some obj"
  shows "heap s a = Some obj \<or> (next_addr s \<le> a \<and> (\<exists>c. code obj = Some c \<and> typecodes s \<le> c))"
proof (cases ev)
  case (Construct v args)
  show ?thesis using w
  proof (cases rule: call_cases [of s v args])
    case (dup p ob)
    with h Construct show ?thesis by simp
  next
    case new
    with h Construct show ?thesis by (cases "a = next_addr s") auto
  next
    case full
    with h Construct show ?thesis by simp
  qed
next
  case (Dispose x)
  with h w show ?thesis by (simp add: dispose_eq split: if_splits)
qed

lemma run_mono:
  "wf s \<Longrightarrow> typecodes s \<le> typecodes (run s evs) \<and> next_addr s \<le> next_addr (run s evs)"
proof (induction evs arbitrary: s)
  case Nil
  then show ?case by (simp add: run_Nil)
next
  case (Cons ev evs)
  from Cons.prems have w': "wf (step s ev)" by (rule wf_step)
  from Cons.IH [OF w'] step_typecodes_mono [OF Cons.prems, of ev]
    step_next_addr_mono [OF Cons.prems, of ev]
  show ?case by (simp add: run_Cons)
qed

lemma run_heap:
  "wf s \<Longrightarrow> heap (run s evs) a = Some obj \<Longrightarrow>
   heap s a = Some obj \<or> (next_addr s \<le> a \<and> (\<exists>c. code obj = Some c \<and> typecodes s \<le> c))"
proof (induction evs arbitrary: s)
  case Nil
  then show ?case by (simp add: run_Nil)
next
  case (Cons ev evs)
  from Cons.prems(1) have w': "wf (step s ev)" by (rule wf_step)
  from Cons.prems(2) have "heap (run (step s ev) evs) a = Some obj" by (simp add: run_Cons)
  from Cons.IH [OF w' this] consider
      "heap (step s ev) a = Some obj"
    | "next_addr (step s ev) \<le> a" "\<exists>c. code obj = Some c \<and> typecodes (step s ev) \<le> c"
    by blast
  then show ?case
  proof cases
    case 1
    from step_heap [OF Cons.prems(1) 1] show ?thesis .
  next
    case 2
    with step_typecodes_mono [OF Cons.prems(1), of ev] step_next_addr_mono [OF Cons.prems(1), of ev]
    show ?thesis by (meson le_trans)
  qed
qed

lemma run_dead:
  assumes w: "wf s" and d: "heap s a = None" and b: "a < next_addr s"
  shows "heap (run s evs) a = None"
proof (cases "heap (run s evs) a")
  case None
  then show ?thesis .
next
  case (Some obj)
  from run_heap [OF w Some] d b show ?thesis by simp
qed

section \<open>Calling a type descriptor\<close>

text \<open>
  Claim C7. Calling a type descriptor with exactly one argument that is not a type
  descriptor delegates to the variant's \<^verbatim>\<open>cast_python_value\<close> on that argument; calling
  it with one or more type descriptors returns the signature built with the descriptor
  itself as return type and the arguments, in order, as parameter types.
\<close>

theorem call_casts_or_builds_signature:
  "(\<not> isinstance_Type x \<longrightarrow>
      Type_call cast sig self [x] = (case cast x of Inl e \<Rightarrow> Inl e | Inr v \<Rightarrow> Inr (Cast v)))
   \<and> (args \<noteq> [] \<and> list_all isinstance_Type args \<longrightarrow>
      Type_call cast sig self args = Inr (Sig (sig self args)))"
proof -
  have "isinstance_Type (args ! 0)" if "args \<noteq> []" "list_all isinstance_Type args"
    using that by (cases args) simp_all
  then show ?thesis by (auto simp: Type_call_def)
qed

theorem call_casts_or_builds_signature_witness:
  "Type_call (\<lambda>x. Inr (x = PyInt 3)) (\<lambda>ret params. (ret, params)) (5::addr) [PyInt 3]
     = Inr (Cast True)
   \<and> Type_call (Type_cast_python_value :: pyobj \<Rightarrow> error + bool)
       (\<lambda>ret params. (ret, params)) (5::addr) [PyInt 3]
     = Inl NotImplementedError
   \<and> Type_call (\<lambda>x. Inr (x = PyInt 3)) (\<lambda>ret params. (ret, params)) (5::addr)
       [PyType 1, PyType 2]
     = Inr (Sig (5, [PyType 1, PyType 2]))"
  using call_casts_or_builds_signature
    [of "PyInt 3" "\<lambda>x. Inr (x = PyInt 3)" "\<lambda>ret params. (ret, params)" 5
        "[PyType 1, PyType 2]"]
    call_casts_or_builds_signature
    [of "PyInt 3" "Type_cast_python_value :: pyobj \<Rightarrow> error + bool"
        "\<lambda>ret params. (ret, params)" 5 "[PyType 1, PyType 2]"]
  by (simp add: Type_cast_python_value_def)

section \<open>The registry over time\<close>

text \<open>
  The definitions that evaluate the registry on a concrete sequence of events.
\<close>

lemmas registry_eval =
  run_def Type_variant_def TypeMetaclass_call_def Let_def wr_eq_def deref_def dispose_def
  on_type_disposal_def autoincr_def set_code_def post_init_def new_instance_def Type_init_def
  IteratorType_init_def Type_eq_def init_state_def code_of_def




text \<open>
  Claim C4. In every state reached from the initial one by constructions and
  reclamations, every live instance has a code and no two distinct live instances have
  the same code.
\<close>

theorem live_codes_unique:
  assumes "heap (run init_state evs) a = Some oa" and "heap (run init_state evs) b = Some ob"
  shows "(\<exists>c. code oa = Some c) \<and> (a \<noteq> b \<longrightarrow> code oa \<noteq> code ob)"
  using wf_live_code [OF wf_reachable assms(1)] wf_unique_code [OF wf_reachable assms]
  by blast

theorem live_codes_unique_witness:
  "code_of (run (init_state :: string state)
        [Construct (Type_variant \<lparr>cname = ''Integer'', iterator_cls = False, iterator_init = False\<rparr>) (''int32'', False),
         Construct (Type_variant \<lparr>cname = ''Integer'', iterator_cls = False, iterator_init = False\<rparr>) (''int64'', False),
         Dispose 0,
         Construct (Type_variant \<lparr>cname = ''Integer'', iterator_cls = False, iterator_init = False\<rparr>) (''int32'', False)]) 1
   \<noteq> code_of (run (init_state :: string state)
        [Construct (Type_variant \<lparr>cname = ''Integer'', iterator_cls = False, iterator_init = False\<rparr>) (''int32'', False),
         Construct (Type_variant \<lparr>cname = ''Integer'', iterator_cls = False, iterator_init = False\<rparr>) (''int64'', False),
         Dispose 0,
         Construct (Type_variant \<lparr>cname = ''Integer'', iterator_cls = False, iterator_init = False\<rparr>) (''int32'', False)]) 2"
proof -
  let ?evs = "[Construct (Type_variant \<lparr>cname = ''Integer'', iterator_cls = False, iterator_init = False\<rparr>) (''int32'', False),
         Construct (Type_variant \<lparr>cname = ''Integer'', iterator_cls = False, iterator_init = False\<rparr>) (''int64'', False),
         Dispose 0,
         Construct (Type_variant \<lparr>cname = ''Integer'', iterator_cls = False, iterator_init = False\<rparr>) (''int32'', False)]"
  let ?s = "run (init_state :: string state) ?evs"
  obtain o1 where h1: "heap ?s 1 = Some o1" by (simp add: registry_eval)
  obtain o2 where h2: "heap ?s 2 = Some o2" by (simp add: registry_eval)
  from live_codes_unique [OF h1 h2] have "code o1 \<noteq> code o2" by simp
  then show ?thesis unfolding code_of_def h1 h2 by simp
qed

subsection \<open>Interning\<close>

lemma call_result_live:
  assumes w: "wf s" and r: "TypeMetaclass_call s v a = (Inr p, s1)"
  shows "\<exists>obj. heap s1 p = Some obj \<and> cls obj = v_cls v \<and> key obj = v_key v a"
  using w
proof (cases rule: call_cases [of s v a])
  case (dup q obj)
  with r show ?thesis by auto
next
  case new
  with r show ?thesis by auto
next
  case full
  with r show ?thesis by simp
qed



subsection \<open>Codes\<close>

lemma call_new_code:
  assumes w: "wf s" and r: "TypeMetaclass_call s v a = (Inr p, s1)" and n: "heap s p = None"
  shows "p = next_addr s \<and> code_of s1 p = Some (typecodes s) \<and> typecodes s1 = Suc (typecodes s)"
  using w
proof (cases rule: call_cases [of s v a])
  case (dup q obj)
  from r dup(4) have "p = q" by simp
  with n dup(1) show ?thesis by simp
next
  case new
  from r new(3) have p: "p = next_addr s" by simp
  from r new(3) have "heap s1 (next_addr s) = Some ((new_instance v a (next_addr s))\<lparr>code := Some (typecodes s)\<rparr>)"
    and "typecodes s1 = Suc (typecodes s)" by auto
  with p show ?thesis by (simp add: code_of_def)
next
  case full
  with r show ?thesis by simp
qed

lemma call_dup_unchanged:
  assumes w: "wf s" and r: "TypeMetaclass_call s v a = (Inr p, s1)" and n: "heap s p \<noteq> None"
  shows "s1 = s\<lparr>next_addr := Suc (next_addr s)\<rparr>"
  using w
proof (cases rule: call_cases [of s v a])
  case (dup q obj)
  with r show ?thesis by simp
next
  case new
  from r new(3) have "p = next_addr s" by simp
  with n wf_fresh_addr [OF w, of "next_addr s"] show ?thesis by simp
next
  case full
  with r show ?thesis by simp
qed

lemma run_code_stable:
  assumes w: "wf s" and l: "heap (run s evs) p \<noteq> None" and b: "p < next_addr s"
  shows "code_of (run s evs) p = code_of s p"
proof -
  from l obtain obj where o: "heap (run s evs) p = Some obj" by auto
  from run_heap [OF w o] b have "heap s p = Some obj" by auto
  with o show ?thesis by (simp add: code_of_def)
qed

lemma call_dup_leaves_registry:
  assumes first: "TypeMetaclass_call (run init_state evs) v a = (Inr p, s1)"
   and l: "heap (run init_state evs) p \<noteq> None"
  shows "typecodes s1 = typecodes (run init_state evs) \<and> heap s1 = heap (run init_state evs) \<and> heap s1 (next_addr (run init_state evs)) = None"
proof -
  let ?s = "run init_state evs"
  have w: "wf ?s" by (rule wf_reachable)
  from call_dup_unchanged [OF w first l] have "s1 = ?s\<lparr>next_addr := Suc (next_addr ?s)\<rparr>" .
  then have "typecodes s1 = typecodes ?s" "heap s1 = heap ?s" by simp_all
  with wf_fresh_addr [OF w, of "next_addr ?s"] show ?thesis by simp
qed

lemma call_result_code:
  assumes first: "TypeMetaclass_call (run init_state evs) v a = (Inr p, s1)"
  shows "wf s1 \<and> p < next_addr s1 \<and> (\<exists>c1. code_of s1 p = Some c1 \<and> c1 < typecodes s1)"
proof -
  let ?s = "run init_state evs"
  have w: "wf ?s" by (rule wf_reachable)
  from wf_call [OF w, of v a] first have w1: "wf s1" by simp
  from call_result_live [OF w first] obtain obj where obj: "heap s1 p = Some obj" by blast
  from wf_live_below [OF w1 obj] have below: "p < next_addr s1" .
  from wf_live_code [OF w1 obj] obtain c1 where c1: "code obj = Some c1" "c1 < typecodes s1"
    by blast
  have cp: "code_of s1 p = Some c1" using obj c1 by (simp add: code_of_def)
  from w1 below cp c1 show ?thesis by blast
qed

lemma later_code_greater:
  assumes w1: "wf s1" and cp: "code_of s1 p = Some c1" and c1: "c1 < typecodes s1"
  and r: "TypeMetaclass_call (run s1 evs') v' a' = (Inr q, s3)" and n: "heap (run s1 evs') q = None"
  shows "\<exists>c1 c2. code_of s1 p = Some c1 \<and> code_of s3 q = Some c2 \<and> c1 < c2"
proof -
  have w2: "wf (run s1 evs')" using w1 by (rule wf_run)
  from call_new_code [OF w2 r n] have c3: "code_of s3 q = Some (typecodes (run s1 evs'))"
    by blast
  from run_mono [OF w1, of evs'] c1 have "c1 < typecodes (run s1 evs')" by simp
  with cp c3 show ?thesis by blast
qed

text \<open>
  Claim C3. Let a construction in a reachable state return the instance p. When p was
  already alive (the call found a duplicate), the counter and the heap are unchanged and
  the provisional instance is gone without a code. When p is new, its code is the value
  the counter had at that moment. As long as p stays alive its code never changes, and
  every instance finalised later receives a strictly greater code.
\<close>

theorem codes_assigned_once_and_increasing:
  fixes evs :: "('a, 'k) event list" and v :: "('a, 'k) variant"
  assumes first: "TypeMetaclass_call (run init_state evs) v a = (Inr p, s1)"
  shows "(heap (run init_state evs) p \<noteq> None \<longrightarrow>
            typecodes s1 = typecodes (run init_state evs)
            \<and> heap s1 = heap (run init_state evs)
            \<and> heap s1 (next_addr (run init_state evs)) = None)
       \<and> (heap (run init_state evs) p = None \<longrightarrow>
            code_of s1 p = Some (typecodes (run init_state evs)))
       \<and> (\<forall>evs' :: ('a, 'k) event list. heap (run s1 evs') p \<noteq> None \<longrightarrow> code_of (run s1 evs') p = code_of s1 p)
       \<and> (\<forall>(evs' :: ('a, 'k) event list) (v' :: ('a, 'k) variant) a' q s3.
            TypeMetaclass_call (run s1 evs') v' a' = (Inr q, s3) \<and> heap (run s1 evs') q = None \<longrightarrow>
            (\<exists>c1 c2. code_of s1 p = Some c1 \<and> code_of s3 q = Some c2 \<and> c1 < c2))"
proof -
  let ?s = "run init_state evs"
  have w: "wf ?s" by (rule wf_reachable)
  from call_result_code [OF first] obtain c1 where
    w1: "wf s1" and below: "p < next_addr s1" and cp: "code_of s1 p = Some c1"
    and c1: "c1 < typecodes s1" by blast
  show ?thesis
  proof (intro conjI allI impI)
    assume l: "heap ?s p \<noteq> None"
    show "typecodes s1 = typecodes ?s" using call_dup_leaves_registry [OF first l] by blast
    show "heap s1 = heap ?s" using call_dup_leaves_registry [OF first l] by blast
    show "heap s1 (next_addr ?s) = None" using call_dup_leaves_registry [OF first l] by blast
  next
    assume "heap ?s p = None"
    from call_new_code [OF w first this] show "code_of s1 p = Some (typecodes ?s)" by blast
  next
    fix evs' :: "('a, 'k) event list"
    assume "heap (run s1 evs') p \<noteq> None"
    from run_code_stable [OF w1 this below] show "code_of (run s1 evs') p = code_of s1 p" .
  next
    fix evs' :: "('a, 'k) event list" and v' :: "('a, 'k) variant" and a' q s3
    assume H: "TypeMetaclass_call (run s1 evs') v' a' = (Inr q, s3) \<and> heap (run s1 evs') q = None"
    from later_code_greater [OF w1 cp c1 conjunct1 [OF H] conjunct2 [OF H]]
    show "\<exists>c1 c2. code_of s1 p = Some c1 \<and> code_of s3 q = Some c2 \<and> c1 < c2" .
  qed
qed

theorem codes_assigned_once_and_increasing_witness:
  "code_of (snd (TypeMetaclass_call (init_state :: string state)
            (Type_variant \<lparr>cname = ''Integer'', iterator_cls = False, iterator_init = False\<rparr>) (''int32'', False))) 0
     = Some 0
   \<and> code_of (snd (TypeMetaclass_call
         (run (snd (TypeMetaclass_call (init_state :: string state)
                     (Type_variant \<lparr>cname = ''Integer'', iterator_cls = False, iterator_init = False\<rparr>) (''int32'', False)))
            [Construct (Type_variant \<lparr>cname = ''Integer'', iterator_cls = False, iterator_init = False\<rparr>) (''int32'', False),
             Construct (Type_variant \<lparr>cname = ''Integer'', iterator_cls = False, iterator_init = False\<rparr>) (''int64'', False)])
         (Type_variant \<lparr>cname = ''Float'', iterator_cls = False, iterator_init = False\<rparr>) (''float32'', False))) 3
     = Some 2"
proof -
  let ?V = "Type_variant \<lparr>cname = ''Integer'', iterator_cls = False, iterator_init = False\<rparr>"
  let ?F = "Type_variant \<lparr>cname = ''Float'', iterator_cls = False, iterator_init = False\<rparr>"
  let ?s1 = "snd (TypeMetaclass_call (init_state :: string state) ?V (''int32'', False))"
  let ?evs' = "[Construct ?V (''int32'', False), Construct ?V (''int64'', False)]"
  let ?s3 = "snd (TypeMetaclass_call (run ?s1 ?evs') ?F (''float32'', False))"
  have "run (init_state :: string state) ([] :: (string \<times> bool, string) event list) = init_state"
    by (simp add: run_def)
  moreover have "fst (TypeMetaclass_call (init_state :: string state) ?V (''int32'', False)) = Inr 0"
    by (simp add: registry_eval)
  ultimately have first:
    "TypeMetaclass_call (run (init_state :: string state) ([] :: (string \<times> bool, string) event list))
       ?V (''int32'', False) = (Inr 0, ?s1)"
    by (simp add: prod_eq_iff)
  have "fst (TypeMetaclass_call (run ?s1 ?evs') ?F (''float32'', False)) = Inr 3"
    by (simp add: registry_eval)
  then have second: "TypeMetaclass_call (run ?s1 ?evs') ?F (''float32'', False) = (Inr 3, ?s3)"
    by (simp add: prod_eq_iff)
  have fresh: "heap (run ?s1 ?evs') 3 = None" by (simp add: registry_eval)
  have c1: "code_of ?s1 0 = Some 0" by (simp add: registry_eval)
  have c3: "code_of ?s3 3 = Some 2" by (simp add: registry_eval)
  note later = codes_assigned_once_and_increasing [OF first, THEN conjunct2, THEN conjunct2,
      THEN conjunct2, rule_format, OF conjI [OF second fresh]]
  from later c1 c3 show ?thesis by simp
qed

subsection \<open>Reclamation\<close>

text \<open>
  Claim C8. Let p be alive in a reachable state, and let it be reclaimed. Its registry
  entry is purged by the callback. After any further constructions and reclamations, as
  long as the counter is below the ceiling, a construction of the same class and key
  succeeds and returns an instance q that is not p, that was not alive when p was
  reclaimed, and whose code is strictly greater than the code p had.
\<close>

theorem reclaimed_key_gets_new_instance:
  fixes evs evs' :: "('a, 'k) event list" and v :: "('a, 'k) variant"
  assumes live: "heap (run init_state evs) p = Some obj"
    and cls: "v_cls v = cls obj" and key: "v_key v a = key obj"
    and room: "typecodes (run (run init_state evs) (Dispose p # evs')) < 2 ^ 32"
  shows "p \<notin> fst ` set (typecache (dispose (run init_state evs) p))
       \<and> (\<exists>q s3 c c'.
            TypeMetaclass_call (run (run init_state evs) (Dispose p # evs')) v a = (Inr q, s3)
            \<and> q \<noteq> p \<and> heap (run init_state evs) q = None
            \<and> code obj = Some c \<and> code_of s3 q = Some c' \<and> c < c')"
proof -
  let ?s = "run init_state evs"
  let ?s' = "dispose ?s p"
  let ?s2 = "run ?s (Dispose p # evs')"
  have w: "wf ?s" by (rule wf_reachable)
  have w': "wf ?s'" using w by (rule wf_dispose)
  have s2: "?s2 = run ?s' evs'" by (simp add: run_Cons)
  have w2: "wf ?s2" using w by (rule wf_run)
  from wf_live_code [OF w live] obtain c where c: "code obj = Some c" "c < typecodes ?s" by blast
  have s': "?s' = ?s\<lparr>heap := (heap ?s)(p := None),
                       typecache := filter (\<lambda>e. fst e \<noteq> p) (typecache ?s)\<rparr>"
    using w by (rule dispose_eq)
  have purged: "p \<notin> fst ` set (typecache ?s')" unfolding s' by auto
  have dead': "heap ?s' p = None" unfolding s' by simp
  have "p < next_addr ?s'" using wf_live_below [OF w live] unfolding s' by simp
  with w' dead' have dead2: "heap ?s2 p = None" unfolding s2 by (rule run_dead)
  from run_mono [OF w, of "Dispose p # evs'"] have mono:
    "typecodes ?s \<le> typecodes ?s2" "next_addr ?s \<le> next_addr ?s2" by simp_all
  have "\<exists>q s3 c'. TypeMetaclass_call ?s2 v a = (Inr q, s3) \<and> q \<noteq> p \<and> heap ?s q = None
          \<and> code_of s3 q = Some c' \<and> c < c'"
    using w2
  proof (cases rule: call_cases [of ?s2 v a])
    case (dup q ob)
    from dup(1) dead2 have qp: "q \<noteq> p" by auto
    from dup(2,3) cls key have eq: "Type_eq obj ob" by (simp add: Type_eq_def)
    from run_heap [OF w dup(1)] consider "heap ?s q = Some ob"
      | "next_addr ?s \<le> q" "\<exists>c'. code ob = Some c' \<and> typecodes ?s \<le> c'" by blast
    then show ?thesis
    proof cases
      case 1
      from wf_unique_eq [OF w live 1 eq] qp show ?thesis by simp
    next
      case 2
      from 2(2) obtain c' where c': "code ob = Some c'" "typecodes ?s \<le> c'" by blast
      from wf_fresh_addr [OF w 2(1)] have fresh: "heap ?s q = None" .
      have "code_of (?s2\<lparr>next_addr := Suc (next_addr ?s2)\<rparr>) q = Some c'"
        using dup(1) c'(1) by (simp add: code_of_def)
      moreover have "c < c'" using c(2) c'(2) by simp
      ultimately show ?thesis using dup(4) qp fresh by blast
    qed
  next
    case new
    let ?q = "next_addr ?s2"
    from wf_live_below [OF w live] mono(2) have qp: "?q \<noteq> p" by simp
    from wf_fresh_addr [OF w mono(2)] have fresh: "heap ?s ?q = None" .
    have w3: "wf (snd (TypeMetaclass_call ?s2 v a))" using w2 by (rule wf_call)
    have nq: "heap ?s2 ?q = None" using wf_fresh_addr [OF w2, of ?q] by simp
    from call_new_code [OF w2 new(3) nq]
    have "code_of (snd (TypeMetaclass_call ?s2 v a)) ?q = Some (typecodes ?s2)"
      using new(3) by simp
    moreover have "c < typecodes ?s2" using c(2) mono(1) by simp
    moreover have "TypeMetaclass_call ?s2 v a = (Inr ?q, snd (TypeMetaclass_call ?s2 v a))"
      using new(3) by simp
    ultimately show ?thesis using qp fresh by blast
  next
    case full
    with room show ?thesis by simp
  qed
  with purged c(1) show ?thesis by blast
qed

theorem reclaimed_key_gets_new_instance_witness:
  "0 \<notin> fst ` set (typecache (dispose (run (init_state :: string state)
        [Construct (Type_variant \<lparr>cname = ''Integer'', iterator_cls = False, iterator_init = False\<rparr>) (''int32'', False),
         Construct (Type_variant \<lparr>cname = ''Integer'', iterator_cls = False, iterator_init = False\<rparr>) (''int64'', False)]) 0))
   \<and> fst (TypeMetaclass_call
        (run (run (init_state :: string state)
           [Construct (Type_variant \<lparr>cname = ''Integer'', iterator_cls = False, iterator_init = False\<rparr>) (''int32'', False),
            Construct (Type_variant \<lparr>cname = ''Integer'', iterator_cls = False, iterator_init = False\<rparr>) (''int64'', False)])
           ([Dispose 0] :: (string \<times> bool, string) event list))
        (Type_variant \<lparr>cname = ''Integer'', iterator_cls = False, iterator_init = False\<rparr>) (''int32'', False))
     = Inr 2
   \<and> code_of (snd (TypeMetaclass_call
        (run (run (init_state :: string state)
           [Construct (Type_variant \<lparr>cname = ''Integer'', iterator_cls = False, iterator_init = False\<rparr>) (''int32'', False),
            Construct (Type_variant \<lparr>cname = ''Integer'', iterator_cls = False, iterator_init = False\<rparr>) (''int64'', False)])
           ([Dispose 0] :: (string \<times> bool, string) event list))
        (Type_variant \<lparr>cname = ''Integer'', iterator_cls = False, iterator_init = False\<rparr>) (''int32'', False))) 2
     = Some 2"
proof -
  let ?V = "Type_variant \<lparr>cname = ''Integer'', iterator_cls = False, iterator_init = False\<rparr>"
  let ?evs = "[Construct ?V (''int32'', False), Construct ?V (''int64'', False)]"
  let ?s = "run (init_state :: string state) ?evs"
  let ?s2 = "run ?s ([Dispose 0] :: (string \<times> bool, string) event list)"
  let ?obj = "\<lparr>cls = \<lparr>cname = ''Integer'', iterator_cls = False, iterator_init = False\<rparr>, name = ''int32'',
                is_parametric = False, key = ''int32'', code = Some 0,
                iterator_type_field = None\<rparr>"
  have live: "heap ?s 0 = Some ?obj" by (simp add: registry_eval)
  have cls: "v_cls ?V = cls ?obj" by (simp add: Type_variant_def)
  have key: "v_key ?V (''int32'', False) = key ?obj" by (simp add: Type_variant_def)
  have room: "typecodes ?s2 < 2 ^ 32" by (simp add: registry_eval)
  have r: "fst (TypeMetaclass_call ?s2 ?V (''int32'', False)) = Inr 2"
    by (simp add: registry_eval)
  have c: "code_of (snd (TypeMetaclass_call ?s2 ?V (''int32'', False))) 2 = Some 2"
    by (simp add: registry_eval)
  from reclaimed_key_gets_new_instance [OF live cls key room]
  have p: "0 \<notin> fst ` set (typecache (dispose ?s 0))" by (rule conjunct1)
  from p r c show ?thesis by blast
qed

subsection \<open>The ceiling of the counter\<close>

lemma distinct_run_state:
  fixes reqs :: "(('a, 'k) variant \<times> 'a) list"
  assumes "distinct (map (\<lambda>r. (v_cls (fst r), v_key (fst r) (snd r))) reqs)"
  shows "typecodes (run init_state (map (\<lambda>r. Construct (fst r) (snd r)) reqs)) = length reqs
       \<and> next_addr (run init_state (map (\<lambda>r. Construct (fst r) (snd r)) reqs)) = length reqs
       \<and> (\<forall>p obj. heap (run init_state (map (\<lambda>r. Construct (fst r) (snd r)) reqs)) p = Some obj \<longrightarrow>
             (cls obj, key obj) \<in> set (map (\<lambda>r. (v_cls (fst r), v_key (fst r) (snd r))) reqs))"
  using assms
proof (induction reqs rule: rev_induct)
  case Nil
  show ?case by (simp add: run_Nil init_state_def)
next
  case (snoc r reqs)
  let ?k = "\<lambda>r. (v_cls (fst r), v_key (fst r) (snd r))"
  let ?s = "run init_state (map (\<lambda>r. Construct (fst r) (snd r)) reqs)"
  let ?s' = "snd (TypeMetaclass_call ?s (fst r) (snd r))"
  from snoc.prems have d: "distinct (map ?k reqs)" and new: "?k r \<notin> set (map ?k reqs)" by simp_all
  from snoc.IH [OF d] have tc: "typecodes ?s = length reqs" and na: "next_addr ?s = length reqs"
    and hp: "\<And>p obj. heap ?s p = Some obj \<Longrightarrow> (cls obj, key obj) \<in> set (map ?k reqs)"
    by blast+
  have w: "wf ?s" by (rule wf_reachable)
  have nf: "\<not> (cls obj = v_cls (fst r) \<and> key obj = v_key (fst r) (snd r))"
    if "heap ?s p = Some obj" for p obj
  proof
    assume "cls obj = v_cls (fst r) \<and> key obj = v_key (fst r) (snd r)"
    then have "(cls obj, key obj) = ?k r" by simp
    with hp [OF that] new show False by simp
  qed
  have run': "run init_state (map (\<lambda>r. Construct (fst r) (snd r)) (reqs @ [r])) = ?s'"
    by (simp add: run_append run_Cons run_Nil)
  note cf = call_fresh [OF w nf]
  have t': "typecodes ?s' = Suc (length reqs)" using cf tc by simp
  have n': "next_addr ?s' = Suc (length reqs)" using cf na by simp
  have h': "(cls obj, key obj) \<in> set (map ?k (reqs @ [r]))" if "heap ?s' p = Some obj" for p obj
  proof (cases "typecodes ?s < 2 ^ 32")
    case True
    with cf that have "(p = next_addr ?s \<and> obj = (new_instance (fst r) (snd r) (next_addr ?s))\<lparr>code := Some (typecodes ?s)\<rparr>)
        \<or> heap ?s p = Some obj"
      by (cases "p = next_addr ?s") simp_all
    then show ?thesis using hp by auto
  next
    case False
    with cf that have "heap ?s p = Some obj" by simp
    then show ?thesis using hp by auto
  qed
  show ?case unfolding run' using t' n' h' by simp
qed

lemma nth_notin_take: "distinct xs \<Longrightarrow> i < length xs \<Longrightarrow> xs ! i \<notin> set (take i xs)"
  by (auto simp: in_set_conv_nth nth_eq_iff_index_eq)

text \<open>
  Claim C5. Starting from the empty registry, let requests with pairwise distinct class
  and key be constructed one after the other. The request at position i (counting from
  0) succeeds and receives code i when i is below 2^32; from position 2^32 on the
  assertion of \<^verbatim>\<open>_autoincr\<close> fails, no code is assigned, and the heap and the
  dictionary are left as they were. So the first 2^32 constructions succeed and the
  next one fails.
\<close>

theorem counter_ceiling:
  fixes reqs :: "(('a, 'k) variant \<times> 'a) list"
  assumes d: "distinct (map (\<lambda>r. (v_cls (fst r), v_key (fst r) (snd r))) reqs)"
    and i: "i < length reqs"
  shows "(i < 2 ^ 32 \<longrightarrow>
            fst (TypeMetaclass_call
                  (run init_state (map (\<lambda>r. Construct (fst r) (snd r)) (take i reqs)))
                  (fst (reqs ! i)) (snd (reqs ! i))) = Inr i
            \<and> code_of (snd (TypeMetaclass_call
                  (run init_state (map (\<lambda>r. Construct (fst r) (snd r)) (take i reqs)))
                  (fst (reqs ! i)) (snd (reqs ! i)))) i = Some i)
       \<and> (\<not> i < 2 ^ 32 \<longrightarrow>
            fst (TypeMetaclass_call
                  (run init_state (map (\<lambda>r. Construct (fst r) (snd r)) (take i reqs)))
                  (fst (reqs ! i)) (snd (reqs ! i))) = Inl AssertionError
            \<and> heap (snd (TypeMetaclass_call
                  (run init_state (map (\<lambda>r. Construct (fst r) (snd r)) (take i reqs)))
                  (fst (reqs ! i)) (snd (reqs ! i))))
                = heap (run init_state (map (\<lambda>r. Construct (fst r) (snd r)) (take i reqs)))
            \<and> typecache (snd (TypeMetaclass_call
                  (run init_state (map (\<lambda>r. Construct (fst r) (snd r)) (take i reqs)))
                  (fst (reqs ! i)) (snd (reqs ! i))))
                = typecache (run init_state (map (\<lambda>r. Construct (fst r) (snd r)) (take i reqs))))"
proof -
  let ?k = "\<lambda>r. (v_cls (fst r), v_key (fst r) (snd r))"
  let ?s = "run init_state (map (\<lambda>r. Construct (fst r) (snd r)) (take i reqs))"
  let ?v = "fst (reqs ! i)" and ?a = "snd (reqs ! i)"
  have mt: "map ?k (take i reqs) = take i (map ?k reqs)" by (simp add: take_map)
  from d have dt: "distinct (map ?k (take i reqs))" unfolding mt by (rule distinct_take)
  from i have "i < length (map ?k reqs)" by simp
  from nth_notin_take [OF d this] i have new: "?k (reqs ! i) \<notin> set (map ?k (take i reqs))"
    unfolding mt by simp
  from i have len: "length (take i reqs) = i" by simp
  from distinct_run_state [OF dt] len have tc: "typecodes ?s = i" and na: "next_addr ?s = i"
    and hp: "\<And>p obj. heap ?s p = Some obj \<Longrightarrow> (cls obj, key obj) \<in> set (map ?k (take i reqs))"
    by auto
  have w: "wf ?s" by (rule wf_reachable)
  have nf: "\<not> (cls obj = v_cls ?v \<and> key obj = v_key ?v ?a)" if "heap ?s p = Some obj" for p obj
  proof
    assume "cls obj = v_cls ?v \<and> key obj = v_key ?v ?a"
    then have "(cls obj, key obj) = ?k (reqs ! i)" by simp
    with hp [OF that] new show False by simp
  qed
  note cf = call_fresh [OF w nf]
  show ?thesis
  proof (cases "i < 2 ^ 32")
    case True
    with cf tc na show ?thesis by (simp add: code_of_def)
  next
    case False
    with cf tc na show ?thesis by simp
  qed
qed

theorem counter_ceiling_witness:
  "fst (TypeMetaclass_call
         (run (init_state :: string state)
            [Construct (Type_variant \<lparr>cname = ''Integer'', iterator_cls = False, iterator_init = False\<rparr>) (''int32'', False)])
         (Type_variant \<lparr>cname = ''Integer'', iterator_cls = False, iterator_init = False\<rparr>) (''int64'', False)) = Inr 1
   \<and> fst (TypeMetaclass_call
         (run (init_state :: nat state)
            (map (\<lambda>n. Construct \<lparr>v_cls = \<lparr>cname = ''Opaque'', iterator_cls = False, iterator_init = False\<rparr>,
                                v_name = (\<lambda>n. ''opaque''), v_param = (\<lambda>n. False),
                                v_key = (\<lambda>n. n)\<rparr> n) [0..<2 ^ 32]))
         \<lparr>v_cls = \<lparr>cname = ''Opaque'', iterator_cls = False, iterator_init = False\<rparr>,
          v_name = (\<lambda>n. ''opaque''), v_param = (\<lambda>n. False), v_key = (\<lambda>n. n)\<rparr>
         (2 ^ 32)) = Inl AssertionError"
proof -
  let ?V = "Type_variant \<lparr>cname = ''Integer'', iterator_cls = False, iterator_init = False\<rparr>"
  let ?small = "[(?V, (''int32'', False)), (?V, (''int64'', False))]"
  have d1: "distinct (map (\<lambda>r. (v_cls (fst r), v_key (fst r) (snd r))) ?small)"
    by (simp add: Type_variant_def)
  have i1: "1 < length ?small" by simp
  from counter_ceiling [OF d1 i1]
  have small: "fst (TypeMetaclass_call
         (run (init_state :: string state) [Construct ?V (''int32'', False)])
         ?V (''int64'', False)) = Inr 1"
    by simp
  let ?W = "\<lparr>v_cls = \<lparr>cname = ''Opaque'', iterator_cls = False, iterator_init = False\<rparr>,
             v_name = (\<lambda>n::nat. ''opaque''), v_param = (\<lambda>n::nat. False),
             v_key = (\<lambda>n::nat. n)\<rparr>"
  let ?big = "map (\<lambda>n. (?W, n)) [0..<2 ^ 32 + 1]"
  have d2: "distinct (map (\<lambda>r. (v_cls (fst r), v_key (fst r) (snd r))) ?big)"
    by (simp add: distinct_map comp_def inj_on_def)
  have i2: "2 ^ 32 < length ?big" by simp
  have tk: "take (2 ^ 32) ?big = map (\<lambda>n. (?W, n)) [0..<2 ^ 32]"
    by (simp add: take_map)
  have nt: "?big ! (2 ^ 32) = (?W, 2 ^ 32)" by simp
  from counter_ceiling [OF d2 i2]
  have big: "fst (TypeMetaclass_call
         (run (init_state :: nat state)
            (map (\<lambda>r. Construct (fst r) (snd r)) (take (2 ^ 32) ?big)))
         (fst (?big ! (2 ^ 32))) (snd (?big ! (2 ^ 32)))) = Inl AssertionError"
    by (simp only: less_irrefl not_False_eq_True simp_thms)
  from small big show ?thesis unfolding tk nt by (simp add: comp_def)
qed

section \<open>Indexing a type descriptor\<close>

lemma dict_get_identity:
  assumes "distinct (map fst kvs)" and "(k, v) \<in> set kvs"
  shows "dict_get (=) kvs k = Some v"
proof -
  have "\<forall>k' \<in> fst ` set kvs. k' = k \<longrightarrow> k' = k" by blast
  with assms(2) refl [of k] show ?thesis using assms(1) by (rule dict_get_present)
qed

lemma call_returns_interned:
  assumes w: "wf s" and room: "typecodes s < 2 ^ 32"
  shows "\<exists>p s' obj. TypeMetaclass_call s v a = (Inr p, s')
           \<and> heap s' p = Some obj \<and> cls obj = v_cls v \<and> key obj = v_key v a
           \<and> code obj \<noteq> None
           \<and> dict_get (=) (typecache s') p = Some p
           \<and> fst (TypeMetaclass_call s' v a) = Inr p"
proof -
  have "\<exists>p s'. TypeMetaclass_call s v a = (Inr p, s')"
    using w
  proof (cases rule: call_cases [of s v a])
    case (dup p obj)
    then show ?thesis by blast
  next
    case new
    then show ?thesis by blast
  next
    case full
    with room show ?thesis by simp
  qed
  then obtain p s' where r: "TypeMetaclass_call s v a = (Inr p, s')" by blast
  from wf_call [OF w, of v a] r have w': "wf s'" by simp
  from call_result_live [OF w r] obtain obj where
    obj: "heap s' p = Some obj" "cls obj = v_cls v" "key obj = v_key v a" by blast
  from wf_live_code [OF w' obj(1)] have c: "code obj \<noteq> None" by auto
  from wf_cached [OF w' obj(1)] wf_distinct [OF w']
  have g: "dict_get (=) (typecache s') p = Some p" by (intro dict_get_identity)
  from call_dup [OF w' obj] have "fst (TypeMetaclass_call s' v a) = Inr p" by simp
  with r obj c g show ?thesis by blast
qed

lemma getitem_interns_holds:
  assumes w: "wf s" and d: "determine_array_spec idx = Inr (ndim, layout)"
  shows "getitem_interns Array s self idx ndim layout"
proof -
  have g: "Type_getitem (construct_Array Array) self idx
            = Inr (construct_Array Array self ndim layout)"
    using d by (simp add: Type_getitem_def)
  have "(case construct_Array Array self ndim layout s of
           (Inl e, s') \<Rightarrow> False
         | (Inr p, s') \<Rightarrow>
             (case heap s' p of
                None \<Rightarrow> False
              | Some obj \<Rightarrow>
                  cls obj = v_cls Array
                  \<and> key obj = v_key Array (self, ndim, layout)
                  \<and> code obj \<noteq> None)
             \<and> dict_get (=) (typecache s') p = Some p
             \<and> fst (construct_Array Array self ndim layout s') = Inr p)"
    if room: "typecodes s < 2 ^ 32"
  proof -
    from call_returns_interned [OF w room, of Array "(self, ndim, layout)"]
    obtain p s' obj where "TypeMetaclass_call s Array (self, ndim, layout) = (Inr p, s')"
      "heap s' p = Some obj" "cls obj = v_cls Array" "key obj = v_key Array (self, ndim, layout)"
      "code obj \<noteq> None" "dict_get (=) (typecache s') p = Some p"
      "fst (TypeMetaclass_call s' Array (self, ndim, layout)) = Inr p"
      by blast
    then show ?thesis by (simp add: construct_Array_def)
  qed
  then show ?thesis
    unfolding getitem_interns_def g by (simp add: construct_Array_def)
qed

lemma determine_slices:
  assumes ne: "xs \<noteq> []" and all: "list_all is_slice xs"
  shows "sequence_spec xs = Inr (length xs,
           if step_is_one (hd xs) then ''F''
           else if step_is_one (last xs) then ''C'' else ''A'')"
proof -
  have one: "py_eq_one c = (c = PyInt 1)" for c by (cases c) simp_all
  have st: "is_slice x \<Longrightarrow> \<exists>st. getattr_step x = Inr st \<and> py_eq_one st = step_is_one x" for x
    by (cases x) (simp_all add: one)
  from ne all have "is_slice (hd xs)" "is_slice (last xs)"
    by (simp_all add: list_all_iff)
  from st [OF this(1)] st [OF this(2)] ne show ?thesis
    by (auto simp: sequence_spec_def)
qed

text \<open>
  Claim C6, as amended. Indexing a type descriptor returns an interned Array type with
  this descriptor as dtype. A single slice gives rank 1 and layout C when its step is 1,
  layout A otherwise. A non-empty tuple of slices, or a non-empty list of slices, gives
  as rank the number of slices, with layout F when the first slice has step 1, otherwise
  C when the last slice has step 1, otherwise A. An index that is neither a slice, a
  tuple nor a list gives rank 1 and layout A. The statement holds in every reachable
  state of the registry and for every class \<open>Array\<close>; what \<open>getitem_interns\<close> says about
  the returned instance is under the proviso that the counter of codes is not exhausted.
\<close>

theorem getitem_rank_and_layout:
  fixes evs :: "('a, 'k) event list" and Array :: "(addr \<times> nat \<times> string, 'k) variant"
  shows "getitem_interns Array (run init_state evs) self (PySlice a b c) 1
           (if c = PyInt 1 then ''C'' else ''A'')
   \<and> (xs \<noteq> [] \<and> list_all is_slice xs \<longrightarrow>
        getitem_interns Array (run init_state evs) self (PyTuple xs) (length xs)
          (if step_is_one (hd xs) then ''F''
           else if step_is_one (last xs) then ''C'' else ''A'')
        \<and> getitem_interns Array (run init_state evs) self (PyList xs) (length xs)
          (if step_is_one (hd xs) then ''F''
           else if step_is_one (last xs) then ''C'' else ''A''))
   \<and> getitem_interns Array (run init_state evs) self PyNone 1 ''A''
   \<and> getitem_interns Array (run init_state evs) self (PyInt n) 1 ''A''
   \<and> getitem_interns Array (run init_state evs) self (PyStr s) 1 ''A''
   \<and> getitem_interns Array (run init_state evs) self (PyType t) 1 ''A''"
proof -
  have w: "wf (run init_state evs)" by (rule wf_reachable)
  have one: "py_eq_one c = (c = PyInt 1)" for c by (cases c) simp_all
  note I = getitem_interns_holds [OF w]
  have 1: "getitem_interns Array (run init_state evs) self (PySlice a b c) 1
             (if c = PyInt 1 then ''C'' else ''A'')"
    by (rule I) (simp add: one)
  have 2: "getitem_interns Array (run init_state evs) self (PyTuple xs) (length xs)
          (if step_is_one (hd xs) then ''F''
           else if step_is_one (last xs) then ''C'' else ''A'')"
    and 3: "getitem_interns Array (run init_state evs) self (PyList xs) (length xs)
          (if step_is_one (hd xs) then ''F''
           else if step_is_one (last xs) then ''C'' else ''A'')"
    if "xs \<noteq> []" "list_all is_slice xs"
    using determine_slices [OF that] by (auto intro!: I)
  have 4: "getitem_interns Array (run init_state evs) self PyNone 1 ''A''" by (rule I) simp
  have 5: "getitem_interns Array (run init_state evs) self (PyInt n) 1 ''A''" by (rule I) simp
  have 6: "getitem_interns Array (run init_state evs) self (PyStr s) 1 ''A''" by (rule I) simp
  have 7: "getitem_interns Array (run init_state evs) self (PyType t) 1 ''A''" by (rule I) simp
  from 1 2 3 4 5 6 7 show ?thesis by blast
qed

theorem getitem_rank_and_layout_witness:
  "getitem_interns
     \<lparr>v_cls = \<lparr>cname = ''Array'', iterator_cls = False, iterator_init = False\<rparr>,
      v_name = (\<lambda>a. ''array''), v_param = (\<lambda>a. True),
      v_key = (\<lambda>a. PyTuple [PyType (fst a), PyInt (int (fst (snd a))), PyStr (snd (snd a))])\<rparr>
     (run init_state
        [Construct \<lparr>v_cls = \<lparr>cname = ''Float'', iterator_cls = False, iterator_init = False\<rparr>,
                    v_name = fst, v_param = snd, v_key = (\<lambda>a. PyStr (fst a))\<rparr>
           (''float32'', False)])
     0 (PyTuple [PySlice PyNone PyNone (PyInt 2), PySlice PyNone PyNone (PyInt 1)]) 2 ''C''
   \<and> fst (construct_Array
       \<lparr>v_cls = \<lparr>cname = ''Array'', iterator_cls = False, iterator_init = False\<rparr>,
        v_name = (\<lambda>a. ''array''), v_param = (\<lambda>a. True),
        v_key = (\<lambda>a. PyTuple [PyType (fst a), PyInt (int (fst (snd a))), PyStr (snd (snd a))])\<rparr>
       0 2 ''C''
       (run init_state
        [Construct \<lparr>v_cls = \<lparr>cname = ''Float'', iterator_cls = False, iterator_init = False\<rparr>,
                    v_name = fst, v_param = snd, v_key = (\<lambda>a. PyStr (fst a))\<rparr>
           (''float32'', False)]))
     = Inr 1"
proof -
  let ?A = "\<lparr>v_cls = \<lparr>cname = ''Array'', iterator_cls = False, iterator_init = False\<rparr>,
      v_name = (\<lambda>a. ''array''), v_param = (\<lambda>a. True),
      v_key = (\<lambda>a. PyTuple [PyType (fst a), PyInt (int (fst (snd a))), PyStr (snd (snd a))])\<rparr>
      :: (addr \<times> nat \<times> string, pyobj) variant"
  let ?evs = "[Construct \<lparr>v_cls = \<lparr>cname = ''Float'', iterator_cls = False, iterator_init = False\<rparr>,
                    v_name = fst, v_param = snd, v_key = (\<lambda>a. PyStr (fst a))\<rparr>
           (''float32'', False)] :: (string \<times> bool, pyobj) event list"
  let ?xs = "[PySlice PyNone PyNone (PyInt 2), PySlice PyNone PyNone (PyInt 1)]"
  have ne: "?xs \<noteq> [] \<and> list_all is_slice ?xs" by simp
  note t = getitem_rank_and_layout [of ?A ?evs 0 PyNone PyNone "PyInt 1" ?xs 0 "[]" 0,
      THEN conjunct2, THEN conjunct1, THEN mp, OF ne, THEN conjunct1]
  have a: "getitem_interns ?A (run init_state ?evs) 0 (PyTuple ?xs) 2 ''C''"
    using t by (simp add: numeral_2_eq_2)
  have b: "fst (construct_Array ?A 0 2 ''C'' (run init_state ?evs)) = Inr 1"
    by (simp add: registry_eval construct_Array_def)
  from a b show ?thesis by blast
qed

text \<open>
  Claim C6 as stated fails on the empty tuple, which is a tuple of (no) slices: the
  stated rule gives rank 0 and layout A, while \<^verbatim>\<open>args[0]\<close> raises \<^verbatim>\<open>IndexError\<close>.
\<close>

theorem getitem_empty_tuple_counterexample:
  "Type_getitem (\<lambda>dtype ndim layout. (dtype, ndim, layout)) (7::addr) (PyTuple []) = Inl IndexError
   \<and> spec_array_spec (PyTuple []) = (0, ''A'')"
  by (simp add: Type_getitem_def sequence_spec_def spec_array_spec_def)

end
